theory Spec2Isabelle
  imports Complex_Main "HOL-Library.Word"
begin

section \<open>Machine types\<close>

text \<open>
  \<^verbatim>\<open>unsigned long long\<close> is a 64-bit word read with \<open>unat\<close>; \<^verbatim>\<open>int\<close> is a 32-bit
  word read with \<open>sint\<close>. Where the source mixes the two (\<^verbatim>\<open>N / T\<close>, \<^verbatim>\<open>N % T\<close>,
  \<^verbatim>\<open>i < remainder\<close>) the \<^verbatim>\<open>int\<close> operand is converted to \<^verbatim>\<open>unsigned long long\<close>, which is
  the sign-extending cast \<open>scast\<close>.
\<close>

type_synonym u64 = "64 word"
type_synonym i32 = "32 word"

text \<open>
  Neither loop counter of the program can wrap: an \<^verbatim>\<open>unsigned long long\<close> below another
  one, and an \<^verbatim>\<open>int\<close> below another one, have a successor of the same type.
\<close>

lemma unat_succ_lt: "(i :: u64) < e \<Longrightarrow> unat (i + 1) = unat i + 1"
proof -
  assume "i < e"
  then have "unat i < unat e" by (simp add: word_less_nat_alt)
  moreover have "unat e < 2 ^ 64" using unsigned_less [of e] by simp
  ultimately have "unat i + 1 < 2 ^ 64" by linarith
  then show ?thesis by (simp add: unat_word_ariths)
qed

lemma sint_succ_lt: "(i :: i32) <s T \<Longrightarrow> sint (i + 1) = sint i + 1"
proof -
  assume "i <s T"
  then have "sint i < sint T" by (simp add: word_sless_alt)
  moreover have "sint T < 2 ^ 31" using sint_lt [of T] by simp
  moreover have "- (2 ^ 31) \<le> sint i" using sint_ge [of i] by simp
  ultimately have "- (2 ^ 31) \<le> sint i + 1 \<and> sint i + 1 < 2 ^ 31" by linarith
  then show ?thesis by (simp add: sint_word_ariths signed_take_bit_int_eq_self)
qed

section \<open>Double-precision arithmetic\<close>

text \<open>
  The arithmetic of \<^verbatim>\<open>double\<close> is a parameter of the model: the four literals the source
  writes (\<^verbatim>\<open>0.0\<close>, \<^verbatim>\<open>0.5\<close>, \<^verbatim>\<open>1.0\<close>, \<^verbatim>\<open>4.0\<close>), the conversion
  \<^verbatim>\<open>static_cast<double>\<close> from \<^verbatim>\<open>unsigned long long\<close>, the four operations and
  \<^verbatim>\<open>std::sqrt\<close>. Every function below applies them in the order the source does, so
  what is proved for every arithmetic holds for the one of the machine. Two arithmetics
  are given further down: symbolic doubles, to run the model on concrete inputs, and
  IEEE 754 double precision, for the properties that depend on rounding.
\<close>

record 'd fpu =
  fp_zero :: 'd
  fp_half :: 'd
  fp_one :: 'd
  fp_four :: 'd
  fp_of_u64 :: "u64 \<Rightarrow> 'd"
  fp_add :: "'d \<Rightarrow> 'd \<Rightarrow> 'd"
  fp_sub :: "'d \<Rightarrow> 'd \<Rightarrow> 'd"
  fp_mul :: "'d \<Rightarrow> 'd \<Rightarrow> 'd"
  fp_div :: "'d \<Rightarrow> 'd \<Rightarrow> 'd"
  fp_sqrt :: "'d \<Rightarrow> 'd"

text \<open>\<^verbatim>\<open>inline double f(double x) { return std::sqrt(1.0 - x * x); }\<close>\<close>

definition f :: "'d fpu \<Rightarrow> 'd \<Rightarrow> 'd" where
  "f fp x = fp_sqrt fp (fp_sub fp (fp_one fp) (fp_mul fp x x))"

section \<open>The worker\<close>

text \<open>\<^verbatim>\<open>struct ThreadData { unsigned long long start, end; double sum, step; }\<close>\<close>

record 'd ThreadData =
  start_td :: u64
  end_td :: u64
  sum_td :: 'd
  step_td :: 'd

text \<open>
  The loop of \<^verbatim>\<open>threadFunction\<close>:
  \<^verbatim>\<open>for (unsigned long long i = data.start; i < data.end; ++i) {
       double x = (static_cast<double>(i) + 0.5) * data.step;
       partialSum += f(x); }\<close>
\<close>

function threadLoop :: "'d fpu \<Rightarrow> 'd ThreadData \<Rightarrow> u64 \<Rightarrow> 'd \<Rightarrow> 'd" where
  "threadLoop fp data i partialSum =
     (if i < end_td data then
        (let x = fp_mul fp (fp_add fp (fp_of_u64 fp i) (fp_half fp)) (step_td data)
         in threadLoop fp data (i + 1) (fp_add fp partialSum (f fp x)))
      else partialSum)"
  by pat_completeness auto
termination
proof (relation "measure (\<lambda>(fp, data, i, partialSum). unat (end_td data) - unat i)")
  show "wf (measure (\<lambda>(fp, data, i, partialSum). unat (end_td data) - unat i))"
    by simp
next
  fix fp :: "'d fpu" and data :: "'d ThreadData" and i :: u64 and partialSum x :: 'd
  assume lt: "i < end_td data"
  then have "unat i < unat (end_td data)"
    by (simp add: word_less_nat_alt)
  moreover have "unat (i + 1) = unat i + 1"
    using lt by (rule unat_succ_lt)
  ultimately show "((fp, data, i + 1, fp_add fp partialSum (f fp x)), (fp, data, i, partialSum))
      \<in> measure (\<lambda>(fp, data, i, partialSum). unat (end_td data) - unat i)"
    by simp
qed

declare threadLoop.simps [simp del]

text \<open>
  \<^verbatim>\<open>void threadFunction(ThreadData& data)\<close>: the accumulator starts at \<^verbatim>\<open>0.0\<close> and is
  stored in \<^verbatim>\<open>data.sum\<close> after the loop.
\<close>

definition threadFunction :: "'d fpu \<Rightarrow> 'd ThreadData \<Rightarrow> 'd ThreadData" where
  "threadFunction fp data =
     data\<lparr>sum_td := threadLoop fp data (start_td data) (fp_zero fp)\<rparr>"

section \<open>The main program\<close>

text \<open>
  The program has no check on its inputs. Two inputs stop it before any work is done:
  a negative \<^verbatim>\<open>T\<close> converts to a size beyond \<^verbatim>\<open>max_size()\<close> and the constructor
  \<^verbatim>\<open>std::vector<std::thread> threads(T)\<close> throws \<^verbatim>\<open>std::length_error\<close>, which nothing
  catches; \<^verbatim>\<open>T == 0\<close> makes \<^verbatim>\<open>N / T\<close> an integer division by zero, which has no
  defined result.
\<close>

datatype error = LengthError | DivisionByZero

text \<open>
  The four assignments \<^verbatim>\<open>threadData[i].start = currentStart; ... .sum = 0.0;\<close> of the
  partitioning loop.
\<close>

definition init_slot ::
  "'d fpu \<Rightarrow> 'd \<Rightarrow> nat \<Rightarrow> u64 \<Rightarrow> u64 \<Rightarrow> 'd ThreadData list \<Rightarrow> 'd ThreadData list" where
  "init_slot fp step k currentStart currentEnd threadData =
     threadData[k := (threadData ! k)
       \<lparr>start_td := currentStart, end_td := currentEnd, step_td := step, sum_td := fp_zero fp\<rparr>]"

text \<open>
  \<^verbatim>\<open>std::thread(threadFunction, std::ref(threadData[i]))\<close> hands slot \<open>i\<close>, and only
  that slot, to the worker, which runs \<^verbatim>\<open>threadFunction\<close> on it.
\<close>

definition run_worker :: "'d fpu \<Rightarrow> nat \<Rightarrow> 'd ThreadData list \<Rightarrow> 'd ThreadData list" where
  "run_worker fp k threadData = threadData[k := threadFunction fp (threadData ! k)]"

text \<open>
  The partitioning loop \<^verbatim>\<open>for (int i = 0; i < T; ++i)\<close>. In this sequential reading
  each worker runs to completion when it is started; the section on schedules below
  lets every worker run at any later moment instead.
\<close>

function spawn_loop ::
  "'d fpu \<Rightarrow> 'd \<Rightarrow> u64 \<Rightarrow> u64 \<Rightarrow> i32 \<Rightarrow> i32 \<Rightarrow> u64 \<Rightarrow> 'd ThreadData list
     \<Rightarrow> 'd ThreadData list" where
  "spawn_loop fp step chunk remainder T i currentStart threadData =
     (if i <s T then
        (let currentEnd = currentStart + chunk;
             currentEnd = (if scast i < remainder then currentEnd + 1 else currentEnd);
             threadData = init_slot fp step (nat (sint i)) currentStart currentEnd threadData;
             threadData = run_worker fp (nat (sint i)) threadData
         in spawn_loop fp step chunk remainder T (i + 1) currentEnd threadData)
      else threadData)"
  by pat_completeness auto
termination
  by (relation "measure (\<lambda>(fp, step, chunk, remainder, T, i, currentStart, threadData).
        nat (sint T - sint i))")
     (auto simp: sint_succ_lt word_sless_alt)

declare spawn_loop.simps [simp del]

text \<open>
  The joining loop
  \<^verbatim>\<open>for (int i = 0; i < T; ++i) { threads[i].join(); totalSum += threadData[i].sum; }\<close>
\<close>

function join_loop :: "'d fpu \<Rightarrow> i32 \<Rightarrow> i32 \<Rightarrow> 'd \<Rightarrow> 'd ThreadData list \<Rightarrow> 'd" where
  "join_loop fp T i totalSum threadData =
     (if i <s T then
        join_loop fp T (i + 1) (fp_add fp totalSum (sum_td (threadData ! nat (sint i)))) threadData
      else totalSum)"
  by pat_completeness auto
termination
  by (relation "measure (\<lambda>(fp, T, i, totalSum, threadData). nat (sint T - sint i))")
     (auto simp: sint_succ_lt word_sless_alt)

declare join_loop.simps [simp del]

text \<open>
  What \<^verbatim>\<open>main\<close> has computed when it returns: the slots, the three doubles of the
  reduction, and the exit code.
\<close>

record 'd main_result =
  threadData :: "'d ThreadData list"
  totalSum :: 'd
  integralValue :: 'd
  pi_approx :: 'd
  exit_code :: int

text \<open>
  \<^verbatim>\<open>std::vector<ThreadData> threadData(T)\<close> value-initialises every slot: both indices
  are 0 and both doubles are \<^verbatim>\<open>0.0\<close>.
\<close>

definition empty_slot :: "'d fpu \<Rightarrow> 'd ThreadData" where
  "empty_slot fp = \<lparr>start_td = 0, end_td = 0, sum_td = fp_zero fp, step_td = fp_zero fp\<rparr>"

text \<open>
  \<^verbatim>\<open>main\<close>, from the two values read from standard input to \<^verbatim>\<open>return 0\<close>. The
  inputs are the values \<^verbatim>\<open>std::cin\<close> has parsed. The measured time is not part of the
  model, and neither is a failure to allocate the vectors or to start a thread: the
  model is of runs in which memory and threads suffice.
\<close>

definition run_main :: "'d fpu \<Rightarrow> u64 \<Rightarrow> i32 \<Rightarrow> error + 'd main_result" where
  "run_main fp N T =
     (let step = fp_div fp (fp_one fp) (fp_of_u64 fp N) in
      if T <s 0 then Inl LengthError
      else if (scast T :: u64) = 0 then Inl DivisionByZero
      else
        (let threadData = replicate (unat (scast T :: u64)) (empty_slot fp);
             chunk = N div scast T;
             remainder = N mod scast T;
             threadData = spawn_loop fp step chunk remainder T 0 0 threadData;
             totalSum = join_loop fp T 0 (fp_zero fp) threadData;
             integralValue = fp_mul fp step totalSum;
             pi_approx = fp_mul fp (fp_four fp) integralValue
         in Inr \<lparr>threadData = threadData, totalSum = totalSum,
                  integralValue = integralValue, pi_approx = pi_approx, exit_code = 0\<rparr>))"

text \<open>
  The first line the program writes to standard output after the computation:
  \<^verbatim>\<open>std::cout << "Oszacowana wartosc pi: " << pi_approx << std::endl\<close>.
\<close>

datatype 'd out_item = Text string | Double 'd | Endl

definition print_result :: "'d main_result \<Rightarrow> 'd out_item list" where
  "print_result r = [Text ''Oszacowana wartosc pi: '', Double (pi_approx r), Endl]"

section \<open>The loops in closed form\<close>

subsection \<open>The worker's loop\<close>

text \<open>
  The term the worker adds for index \<open>i\<close>, and the indices from \<open>a\<close> up to, not
  including, \<open>b\<close> in increasing order.
\<close>

definition sample :: "'d fpu \<Rightarrow> 'd \<Rightarrow> u64 \<Rightarrow> 'd" where
  "sample fp step i = f fp (fp_mul fp (fp_add fp (fp_of_u64 fp i) (fp_half fp)) step)"

definition indices :: "u64 \<Rightarrow> u64 \<Rightarrow> u64 list" where
  "indices a b = map of_nat [unat a..<unat b]"

lemma indices_Cons: "a < b \<Longrightarrow> indices a b = a # indices (a + 1) b"
proof -
  assume lt: "a < b"
  then have "unat a < unat b" by (simp add: word_less_nat_alt)
  then have "[unat a..<unat b] = unat a # [unat (a + 1)..<unat b]"
    using unat_succ_lt [OF lt] by (simp add: upt_conv_Cons)
  then show ?thesis by (simp add: indices_def)
qed

lemma indices_Nil: "\<not> a < b \<Longrightarrow> indices a b = []"
  by (simp add: indices_def word_less_nat_alt)

lemma threadLoop_foldl:
  "threadLoop fp data i acc =
     foldl (\<lambda>s j. fp_add fp s (sample fp (step_td data) j)) acc (indices i (end_td data))"
proof (induction fp data i acc rule: threadLoop.induct)
  case (1 fp data i partialSum)
  show ?case
  proof (cases "i < end_td data")
    case True
    then show ?thesis
      using "1.IH" [OF True refl]
      by (subst threadLoop.simps) (simp add: indices_Cons sample_def Let_def)
  next
    case False
    then show ?thesis
      by (subst threadLoop.simps) (simp add: indices_Nil)
  qed
qed

subsection \<open>The partitioning loop\<close>

text \<open>
  With \<open>c\<close> subintervals for every worker and one more for each of the first \<open>r\<close>,
  worker \<open>j\<close> starts at index \<open>bound c r j\<close> and ends at \<open>bound c r (Suc j)\<close>;
  \<open>task\<close> is the slot the partitioning loop writes for it.
\<close>

definition bound :: "nat \<Rightarrow> nat \<Rightarrow> nat \<Rightarrow> nat" where
  "bound c r j = j * c + min j r"

definition task :: "'d fpu \<Rightarrow> 'd \<Rightarrow> nat \<Rightarrow> nat \<Rightarrow> nat \<Rightarrow> 'd ThreadData" where
  "task fp step c r j =
     \<lparr>start_td = of_nat (bound c r j), end_td = of_nat (bound c r (Suc j)),
      sum_td = fp_zero fp, step_td = step\<rparr>"

lemma bound_Suc: "bound c r (Suc j) = bound c r j + c + (if j < r then 1 else 0)"
  by (simp add: bound_def min_def)

lemma bound_mono: "j \<le> k \<Longrightarrow> bound c r j \<le> bound c r k"
  unfolding bound_def by (intro add_mono mult_le_mono1 min.mono) simp_all

lemma bound_0: "bound c r 0 = 0"
  by (simp add: bound_def)

lemma bound_total: "0 < n \<Longrightarrow> bound (m div n) (m mod n) n = m"
proof -
  assume "0 < n"
  then have "m mod n < n" by simp
  then have "min n (m mod n) = m mod n" by simp
  then show ?thesis by (simp add: bound_def mult.commute)
qed

lemma unat_scast_nonneg: "0 \<le> sint (w :: i32) \<Longrightarrow> unat (scast w :: u64) = nat (sint w)"
proof -
  assume nn: "0 \<le> sint w"
  have "sint w < 2 ^ 31" using sint_lt [of w] by simp
  moreover have "(2 :: int) ^ 31 < 2 ^ 64" by simp
  ultimately have lt: "sint w < 2 ^ 64" by linarith
  have "(scast w :: u64) = word_of_int (sint w)" by (rule scast_eq)
  then have "unat (scast w :: u64) = unat (word_of_int (sint w) :: u64)" by simp
  also have "\<dots> = nat (take_bit 64 (sint w))" by (subst unsigned_of_int) simp
  also have "take_bit 64 (sint w) = sint w" using nn lt by (simp add: take_bit_int_eq_self)
  finally show ?thesis .
qed

lemma nat_sint_succ: "0 \<le> sint (i :: i32) \<Longrightarrow> i <s T \<Longrightarrow> nat (sint (i + 1)) = Suc (nat (sint i))"
  by (simp add: sint_succ_lt nat_add_distrib)

lemma init_slot_eq:
  "init_slot fp step k (of_nat (bound c r k)) (of_nat (bound c r (Suc k))) td
     = td[k := task fp step c r k]"
  by (cases "td ! k") (simp add: init_slot_def task_def)

lemma run_worker_update:
  "k < length td \<Longrightarrow> run_worker fp k (td[k := d]) = td[k := threadFunction fp d]"
  by (simp add: run_worker_def)

lemma spawn_loop_closed:
  assumes "0 \<le> sint i" and "sint i \<le> sint T" and "length td = nat (sint T)"
    and "unat cs = bound (unat chunk) (unat remainder) (nat (sint i))"
    and "bound (unat chunk) (unat remainder) (nat (sint T)) < 2 ^ 64"
  shows "spawn_loop fp step chunk remainder T i cs td =
     take (nat (sint i)) td @
     map (\<lambda>j. threadFunction fp (task fp step (unat chunk) (unat remainder) j))
       [nat (sint i)..<nat (sint T)]"
  using assms
proof (induction fp step chunk remainder T i cs td rule: spawn_loop.induct)
  case (1 fp step chunk remainder T i cs td)
  let ?k = "nat (sint i)" and ?n = "nat (sint T)"
  let ?c = "unat chunk" and ?r = "unat remainder"
  show ?case
  proof (cases "i <s T")
    case False
    then have "sint i = sint T" using "1.prems"(2) by (simp add: word_sless_alt)
    then show ?thesis
      using "1.prems"(3) False by (subst spawn_loop.simps) simp
  next
    case True
    then have kn: "?k < ?n" using "1.prems"(1) by (simp add: word_sless_alt)
    have kS: "nat (sint (i + 1)) = Suc ?k"
      using "1.prems"(1) True by (rule nat_sint_succ)
    have lt_iff: "(scast i :: u64) < remainder \<longleftrightarrow> ?k < ?r"
      using "1.prems"(1) by (simp add: word_less_nat_alt unat_scast_nonneg)
    define ce where "ce = (if (scast i :: u64) < remainder then cs + chunk + 1 else cs + chunk)"
    have "Suc ?k \<le> ?n" using kn by (rule Suc_leI)
    then have "bound ?c ?r (Suc ?k) \<le> bound ?c ?r ?n"
      by (rule bound_mono)
    then have small: "bound ?c ?r (Suc ?k) < 2 ^ 64"
      using "1.prems"(5) by linarith
    have cs_eq: "cs = of_nat (bound ?c ?r ?k)"
      using "1.prems"(4) by (metis of_nat_unat ucast_id)
    have "ce = of_nat (bound ?c ?r (Suc ?k))"
      unfolding ce_def cs_eq bound_Suc lt_iff by simp
    then have ce_eq: "ce = of_nat (bound ?c ?r (Suc ?k))" .
    have unat_ce: "unat ce = bound ?c ?r (Suc ?k)"
      unfolding ce_eq using small by (simp add: unat_of_nat)
    have step1: "init_slot fp step ?k cs ce td = td[?k := task fp step ?c ?r ?k]"
      unfolding cs_eq ce_eq by (rule init_slot_eq)
    have step2: "run_worker fp ?k (init_slot fp step ?k cs ce td)
        = td[?k := threadFunction fp (task fp step ?c ?r ?k)]"
      unfolding step1 using kn "1.prems"(3) by (simp add: run_worker_update)
    let ?td' = "td[?k := threadFunction fp (task fp step ?c ?r ?k)]"
    have IH: "spawn_loop fp step chunk remainder T (i + 1) ce ?td' =
        take (Suc ?k) ?td' @
        map (\<lambda>j. threadFunction fp (task fp step ?c ?r j)) [Suc ?k..<?n]"
    proof -
      have a: "0 \<le> sint (i + 1)" using "1.prems"(1) True by (simp add: sint_succ_lt)
      have b: "sint (i + 1) \<le> sint T" using True by (simp add: sint_succ_lt word_sless_alt)
      have c: "length ?td' = nat (sint T)" using "1.prems"(3) by simp
      have d: "unat ce = bound ?c ?r (nat (sint (i + 1)))" using unat_ce kS by simp
      show ?thesis
        using "1.IH" [OF True refl, of ce "init_slot fp step ?k cs ce td" ?td', unfolded kS]
          a b c d "1.prems"(5) step2 kS ce_def
        by (simp add: Let_def)
    qed
    have "spawn_loop fp step chunk remainder T i cs td
        = spawn_loop fp step chunk remainder T (i + 1) ce ?td'"
      using True step2 by (subst spawn_loop.simps) (simp add: Let_def ce_def)
    also have "\<dots> = take (Suc ?k) ?td' @
        map (\<lambda>j. threadFunction fp (task fp step ?c ?r j)) [Suc ?k..<?n]"
      by (rule IH)
    also have "\<dots> = take ?k td @
        map (\<lambda>j. threadFunction fp (task fp step ?c ?r j)) [?k..<?n]"
    proof -
      have len: "?k < length td" using kn "1.prems"(3) by simp
      have "take (Suc ?k) ?td' = take ?k td @ [threadFunction fp (task fp step ?c ?r ?k)]"
        using len by (simp add: take_Suc_conv_app_nth)
      moreover have "[?k..<?n] = ?k # [Suc ?k..<?n]"
        using kn by (rule upt_conv_Cons)
      ultimately show ?thesis by simp
    qed
    finally show ?thesis .
  qed
qed

subsection \<open>The joining loop and the whole program\<close>

lemma join_loop_closed:
  assumes "0 \<le> sint i" and "sint i \<le> sint T" and "length td = nat (sint T)"
  shows "join_loop fp T i acc td = foldl (fp_add fp) acc (map sum_td (drop (nat (sint i)) td))"
  using assms
proof (induction fp T i acc td rule: join_loop.induct)
  case (1 fp T i acc td)
  show ?case
  proof (cases "i <s T")
    case False
    then have "sint i = sint T" using "1.prems"(2) by (simp add: word_sless_alt)
    then show ?thesis
      using "1.prems"(3) False by (subst join_loop.simps) simp
  next
    case True
    then have kn: "nat (sint i) < nat (sint T)" using "1.prems"(1) by (simp add: word_sless_alt)
    have kS: "nat (sint (i + 1)) = Suc (nat (sint i))"
      using "1.prems"(1) True by (rule nat_sint_succ)
    have a: "0 \<le> sint (i + 1)" using "1.prems"(1) True by (simp add: sint_succ_lt)
    have b: "sint (i + 1) \<le> sint T" using True by (simp add: sint_succ_lt word_sless_alt)
    have len: "nat (sint i) < length td" using kn "1.prems"(3) by simp
    have "join_loop fp T i acc td =
        join_loop fp T (i + 1) (fp_add fp acc (sum_td (td ! nat (sint i)))) td"
      using True by (subst join_loop.simps) simp
    also have "\<dots> = foldl (fp_add fp) (fp_add fp acc (sum_td (td ! nat (sint i))))
        (map sum_td (drop (Suc (nat (sint i))) td))"
      using "1.IH" [OF True a b "1.prems"(3)] kS by simp
    also have "\<dots> = foldl (fp_add fp) acc (map sum_td (drop (nat (sint i)) td))"
      using len by (simp flip: Cons_nth_drop_Suc)
    finally show ?thesis .
  qed
qed

text \<open>
  The tasks of a run in closed form, and the reduction of \<^verbatim>\<open>main\<close> over the slots the
  workers leave.
\<close>

definition tasks :: "'d fpu \<Rightarrow> u64 \<Rightarrow> i32 \<Rightarrow> 'd ThreadData list" where
  "tasks fp N T =
     map (task fp (fp_div fp (fp_one fp) (fp_of_u64 fp N))
            (unat N div nat (sint T)) (unat N mod nat (sint T)))
       [0..<nat (sint T)]"

definition reduce :: "'d fpu \<Rightarrow> u64 \<Rightarrow> 'd ThreadData list \<Rightarrow> 'd main_result" where
  "reduce fp N td =
     (let step = fp_div fp (fp_one fp) (fp_of_u64 fp N);
          total = foldl (fp_add fp) (fp_zero fp) (map sum_td td)
      in \<lparr>threadData = td, totalSum = total, integralValue = fp_mul fp step total,
           pi_approx = fp_mul fp (fp_four fp) (fp_mul fp step total), exit_code = 0\<rparr>)"

lemma run_main_closed:
  assumes "0 <s T"
  shows "run_main fp N T = Inr (reduce fp N (map (threadFunction fp) (tasks fp N T)))"
proof -
  let ?n = "nat (sint T)"
  have pos: "0 < sint T" using assms by (simp add: word_sless_alt)
  have un: "unat (scast T :: u64) = ?n" using pos by (simp add: unat_scast_nonneg)
  have nz: "(scast T :: u64) \<noteq> 0" using un pos by (metis nat_0_iff not_less unat_0 order_less_imp_le less_irrefl)
  have notneg: "\<not> T <s 0" using pos by (simp add: word_sless_alt)
  let ?chunk = "N div scast T" and ?rem = "N mod scast T"
  have c: "unat ?chunk = unat N div ?n" by (simp add: unat_div un)
  have r: "unat ?rem = unat N mod ?n" by (simp add: unat_mod un)
  have tot: "bound (unat ?chunk) (unat ?rem) ?n = unat N"
    unfolding c r using pos by (intro bound_total) simp
  have lt: "bound (unat ?chunk) (unat ?rem) ?n < 2 ^ 64"
    unfolding tot using unsigned_less [of N] by simp
  let ?step = "fp_div fp (fp_one fp) (fp_of_u64 fp N)"
  have sp: "spawn_loop fp ?step ?chunk ?rem T 0 0 (replicate ?n (empty_slot fp))
      = map (threadFunction fp) (tasks fp N T)"
    using spawn_loop_closed [of 0 T "replicate ?n (empty_slot fp)" 0 ?chunk ?rem fp ?step] pos lt
    by (simp add: bound_0 tasks_def c r comp_def)
  have jl: "join_loop fp T 0 (fp_zero fp) (map (threadFunction fp) (tasks fp N T))
      = foldl (fp_add fp) (fp_zero fp) (map sum_td (map (threadFunction fp) (tasks fp N T)))"
    using join_loop_closed [of 0 T "map (threadFunction fp) (tasks fp N T)" fp "fp_zero fp"] pos
    by (simp add: tasks_def)
  show ?thesis
    unfolding run_main_def Let_def un sp jl reduce_def
    using notneg nz by simp
qed

subsection \<open>The slots of a run\<close>

lemma tasks_length: "length (tasks fp N T) = nat (sint T)"
  by (simp add: tasks_def)

lemma tasks_nth:
  "j < nat (sint T) \<Longrightarrow> tasks fp N T ! j =
     task fp (fp_div fp (fp_one fp) (fp_of_u64 fp N))
       (unat N div nat (sint T)) (unat N mod nat (sint T)) j"
  by (simp add: tasks_def)

lemma threadFunction_frame:
  "start_td (threadFunction fp d) = start_td d"
  "end_td (threadFunction fp d) = end_td d"
  "step_td (threadFunction fp d) = step_td d"
  by (simp_all add: threadFunction_def)

lemma bound_le_total:
  assumes "0 < n" and "j \<le> n"
  shows "bound (m div n) (m mod n) j \<le> m"
  using bound_mono [OF assms(2), of "m div n" "m mod n"] bound_total [OF assms(1), of m] by simp

lemma unat_of_nat_bound:
  assumes "0 < n" and "j \<le> n"
  shows "unat (of_nat (bound (unat (N :: u64) div n) (unat N mod n) j) :: u64)
    = bound (unat N div n) (unat N mod n) j"
proof -
  have "bound (unat N div n) (unat N mod n) j \<le> unat N"
    using assms by (rule bound_le_total)
  moreover have "unat N < 2 ^ 64" using unsigned_less [of N] by simp
  ultimately have "bound (unat N div n) (unat N mod n) j < 2 ^ 64" by linarith
  then show ?thesis by (simp add: unat_of_nat)
qed

text \<open>The index range of slot \<open>j\<close> of a run, as natural numbers.\<close>

lemma slot_start:
  assumes "0 <s T" and "j < nat (sint T)"
  shows "unat (start_td (map (threadFunction fp) (tasks fp N T) ! j))
     = bound (unat N div nat (sint T)) (unat N mod nat (sint T)) j"
proof -
  have pos: "0 < nat (sint T)" using assms(1) by (simp add: word_sless_alt)
  show ?thesis
    using assms(2) unat_of_nat_bound [OF pos, of j N]
    by (simp add: tasks_length tasks_nth threadFunction_frame task_def)
qed

lemma slot_end:
  assumes "0 <s T" and "j < nat (sint T)"
  shows "unat (end_td (map (threadFunction fp) (tasks fp N T) ! j))
     = bound (unat N div nat (sint T)) (unat N mod nat (sint T)) (Suc j)"
proof -
  have pos: "0 < nat (sint T)" using assms(1) by (simp add: word_sless_alt)
  show ?thesis
    using assms(2) unat_of_nat_bound [OF pos, of "Suc j" N]
    by (simp add: tasks_length tasks_nth threadFunction_frame task_def)
qed

lemma bound_sum: "(\<Sum>j<k. bound c r (Suc j) - bound c r j) = bound c r k"
proof (induction k)
  case 0
  show ?case by (simp add: bound_0)
next
  case (Suc k)
  have "bound c r k \<le> bound c r (Suc k)" by (rule bound_mono) simp
  then show ?case using Suc by simp
qed

lemma bound_union: "(\<Union>j<k. {bound c r j..<bound c r (Suc j)}) = {0..<bound c r k}"
proof (induction k)
  case 0
  show ?case by (simp add: bound_0)
next
  case (Suc k)
  have "bound c r k \<le> bound c r (Suc k)" by (rule bound_mono) simp
  then have "{0..<bound c r k} \<union> {bound c r k..<bound c r (Suc k)} = {0..<bound c r (Suc k)}"
    by (intro ivl_disj_un) simp_all
  then show ?case using Suc by (simp add: lessThan_Suc Un_commute)
qed

lemma bound_disjoint:
  assumes "j < k"
  shows "{bound c r j..<bound c r (Suc j)} \<inter> {bound c r k..<bound c r (Suc k)} = {}"
proof -
  have "Suc j \<le> k" using assms by simp
  then have "bound c r (Suc j) \<le> bound c r k" by (rule bound_mono)
  then show ?thesis by auto
qed

section \<open>Symbolic doubles\<close>

text \<open>
  One arithmetic for running the model on concrete inputs: a double is the expression
  that computes it. Two runs that build the same expression apply the same operations
  to the same operands in the same order.
\<close>

datatype sym = SZero | SHalf | SOne | SFour | SConv u64
  | SAdd sym sym | SSub sym sym | SMul sym sym | SDiv sym sym | SSqrt sym

definition sym_fpu :: "sym fpu" where
  "sym_fpu = \<lparr>fp_zero = SZero, fp_half = SHalf, fp_one = SOne, fp_four = SFour,
     fp_of_u64 = SConv, fp_add = SAdd, fp_sub = SSub, fp_mul = SMul, fp_div = SDiv,
     fp_sqrt = SSqrt\<rparr>"


section \<open>Properties of the partition\<close>

text \<open>
  Claim C1. For every \<open>N \<ge> 1\<close> and \<open>T \<ge> 1\<close> the program returns with \<open>T\<close> slots
  whose index ranges are contiguous and cover \<open>[0, N)\<close>: the first slot starts at 0,
  each later slot starts where the one before it ends, the last slot ends at \<open>N\<close>, the
  lengths \<open>end - start\<close> add up to \<open>N\<close>, the union of the ranges is \<open>[0, N)\<close> and
  two different ranges have no index in common.
\<close>

theorem partition_covers:
  assumes "N \<noteq> 0" and "0 <s T"
  shows "\<exists>r. run_main fp N T = Inr r
    \<and> length (threadData r) = nat (sint T)
    \<and> start_td (threadData r ! 0) = 0
    \<and> (\<forall>j. Suc j < nat (sint T) \<longrightarrow>
          start_td (threadData r ! Suc j) = end_td (threadData r ! j))
    \<and> end_td (threadData r ! (nat (sint T) - 1)) = N
    \<and> (\<forall>j < nat (sint T). start_td (threadData r ! j) \<le> end_td (threadData r ! j))
    \<and> (\<Sum>j < nat (sint T).
          unat (end_td (threadData r ! j)) - unat (start_td (threadData r ! j))) = unat N
    \<and> (\<Union>j < nat (sint T). {start_td (threadData r ! j)..<end_td (threadData r ! j)}) = {0..<N}
    \<and> (\<forall>j k. j < k \<and> k < nat (sint T) \<longrightarrow>
          {start_td (threadData r ! j)..<end_td (threadData r ! j)}
          \<inter> {start_td (threadData r ! k)..<end_td (threadData r ! k)} = {})"
proof -
  define n where "n = nat (sint T)"
  define c where "c = unat N div n"
  define m where "m = unat N mod n"
  define td where "td = map (threadFunction fp) (tasks fp N T)"
  have pos: "0 < n" using assms(2) by (simp add: n_def word_sless_alt)
  have run: "run_main fp N T = Inr (reduce fp N td)"
    unfolding td_def using assms(2) by (rule run_main_closed)
  have td_r: "threadData (reduce fp N td) = td" by (simp add: reduce_def Let_def)
  have len: "length td = n" by (simp add: td_def n_def tasks_length)
  have st: "unat (start_td (td ! j)) = bound c m j" if "j < n" for j
    using slot_start [OF assms(2), of j fp N] that by (simp add: td_def n_def c_def m_def)
  have en: "unat (end_td (td ! j)) = bound c m (Suc j)" if "j < n" for j
    using slot_end [OF assms(2), of j fp N] that by (simp add: td_def n_def c_def m_def)
  have total: "bound c m n = unat N"
    unfolding c_def m_def using pos by (rule bound_total)
  have p1: "start_td (td ! 0) = 0"
    using st [OF pos] by (simp add: bound_0 unat_eq_0)
  have p2: "start_td (td ! Suc j) = end_td (td ! j)" if "Suc j < n" for j
  proof -
    have "unat (start_td (td ! Suc j)) = unat (end_td (td ! j))"
      using st [OF that] en [of j] that by simp
    then show ?thesis by (simp add: word_unat_eq_iff)
  qed
  have p3: "end_td (td ! (n - 1)) = N"
  proof -
    have "unat (end_td (td ! (n - 1))) = unat N"
      using en [of "n - 1"] pos total by simp
    then show ?thesis by (simp add: word_unat_eq_iff)
  qed
  have p4: "start_td (td ! j) \<le> end_td (td ! j)" if "j < n" for j
  proof -
    have "bound c m j \<le> bound c m (Suc j)" by (rule bound_mono) simp
    then show ?thesis using st [OF that] en [OF that] by (simp add: word_le_nat_alt)
  qed
  have p5: "(\<Sum>j < n. unat (end_td (td ! j)) - unat (start_td (td ! j))) = unat N"
  proof -
    have "(\<Sum>j < n. unat (end_td (td ! j)) - unat (start_td (td ! j)))
        = (\<Sum>j < n. bound c m (Suc j) - bound c m j)"
      by (rule sum.cong) (simp_all add: st en)
    then show ?thesis by (simp add: bound_sum total)
  qed
  have mem: "x \<in> {start_td (td ! j)..<end_td (td ! j)}
      \<longleftrightarrow> unat x \<in> {bound c m j..<bound c m (Suc j)}" if "j < n" for j and x :: u64
    using st [OF that] en [OF that] by (simp add: word_le_nat_alt word_less_nat_alt)
  have p6: "(\<Union>j < n. {start_td (td ! j)..<end_td (td ! j)}) = {0..<N}"
  proof (rule set_eqI)
    fix x :: u64
    have "x \<in> (\<Union>j < n. {start_td (td ! j)..<end_td (td ! j)})
        \<longleftrightarrow> unat x \<in> (\<Union>j < n. {bound c m j..<bound c m (Suc j)})"
      using mem by auto
    also have "\<dots> \<longleftrightarrow> unat x < unat N"
      unfolding bound_union total by simp
    also have "\<dots> \<longleftrightarrow> x \<in> {0..<N}"
      by (simp add: word_less_nat_alt)
    finally show "x \<in> (\<Union>j < n. {start_td (td ! j)..<end_td (td ! j)}) \<longleftrightarrow> x \<in> {0..<N}" .
  qed
  have p7: "{start_td (td ! j)..<end_td (td ! j)} \<inter> {start_td (td ! k)..<end_td (td ! k)} = {}"
    if "j < k" and "k < n" for j k
  proof -
    have jn: "j < n" using that by simp
    have "x \<notin> {start_td (td ! j)..<end_td (td ! j)} \<inter> {start_td (td ! k)..<end_td (td ! k)}"
      for x :: u64
      using bound_disjoint [OF that(1), of c m] mem [OF jn, of x] mem [OF that(2), of x]
      by blast
    then show ?thesis by blast
  qed
  show ?thesis
    unfolding n_def [symmetric]
  proof (rule exI [of _ "reduce fp N td"], unfold td_r, intro conjI allI impI ballI)
    show "run_main fp N T = Inr (reduce fp N td)" by (rule run)
    show "length td = n" by (rule len)
    show "start_td (td ! 0) = 0" by (rule p1)
    show "start_td (td ! Suc j) = end_td (td ! j)" if "Suc j < n" for j
      using that by (rule p2)
    show "end_td (td ! (n - 1)) = N" by (rule p3)
    show "start_td (td ! j) \<le> end_td (td ! j)" if "j < n" for j
      using that by (rule p4)
    show "(\<Sum>j < n. unat (end_td (td ! j)) - unat (start_td (td ! j))) = unat N" by (rule p5)
    show "(\<Union>j < n. {start_td (td ! j)..<end_td (td ! j)}) = {0..<N}" by (rule p6)
    show "{start_td (td ! j)..<end_td (td ! j)} \<inter> {start_td (td ! k)..<end_td (td ! k)} = {}"
      if "j < k \<and> k < n" for j k
      using that by (intro p7) simp_all
  qed
qed

theorem partition_covers_witness:
  "(8 :: u64) \<noteq> 0 \<and> 0 <s (3 :: i32) \<and>
   (\<exists>r. run_main sym_fpu 8 3 = Inr r \<and> length (threadData r) = 3
      \<and> start_td (threadData r ! 0) = 0 \<and> end_td (threadData r ! 2) = 8
      \<and> (\<Sum>j < 3. unat (end_td (threadData r ! j)) - unat (start_td (threadData r ! j))) = 8)"
proof -
  have a: "(8 :: u64) \<noteq> 0" by simp
  have b: "0 <s (3 :: i32)" by (simp add: word_sless_alt)
  have n: "nat (sint (3 :: i32)) = 3" by simp
  show ?thesis
    using a b partition_covers [OF a b, of sym_fpu, unfolded n] by auto
qed


text \<open>
  Claim C4. For every \<open>N \<ge> 1\<close> and \<open>T \<ge> 1\<close>, worker \<open>j\<close> (\<open>0 \<le> j < T\<close>) receives
  \<open>N div T\<close> subintervals, and one more when \<open>j < N mod T\<close>; for \<open>N = 8\<close> and
  \<open>T = 3\<close> the ranges are \<open>[0,3)\<close>, \<open>[3,6)\<close> and \<open>[6,8)\<close>.
\<close>

theorem worker_share:
  assumes "N \<noteq> 0" and "0 <s T"
  shows "\<exists>r. run_main fp N T = Inr r
    \<and> (\<forall>j < nat (sint T).
          start_td (threadData r ! j) \<le> end_td (threadData r ! j)
        \<and> unat (end_td (threadData r ! j)) - unat (start_td (threadData r ! j))
          = unat N div nat (sint T) + (if j < unat N mod nat (sint T) then 1 else 0))
    \<and> (N = 8 \<and> T = 3 \<longrightarrow>
          map (\<lambda>d. (start_td d, end_td d)) (threadData r) = [(0, 3), (3, 6), (6, 8)])"
proof -
  define n where "n = nat (sint T)"
  define c where "c = unat N div n"
  define m where "m = unat N mod n"
  define td where "td = map (threadFunction fp) (tasks fp N T)"
  have run: "run_main fp N T = Inr (reduce fp N td)"
    unfolding td_def using assms(2) by (rule run_main_closed)
  have td_r: "threadData (reduce fp N td) = td" by (simp add: reduce_def Let_def)
  have st: "unat (start_td (td ! j)) = bound c m j" if "j < n" for j
    using slot_start [OF assms(2), of j fp N] that by (simp add: td_def n_def c_def m_def)
  have en: "unat (end_td (td ! j)) = bound c m (Suc j)" if "j < n" for j
    using slot_end [OF assms(2), of j fp N] that by (simp add: td_def n_def c_def m_def)
  have share: "start_td (td ! j) \<le> end_td (td ! j)
      \<and> unat (end_td (td ! j)) - unat (start_td (td ! j)) = c + (if j < m then 1 else 0)"
    if "j < n" for j
    using st [OF that] en [OF that] by (simp add: word_le_nat_alt bound_Suc)
  have ex: "map (\<lambda>d. (start_td d, end_td d)) td = [(0, 3), (3, 6), (6, 8)]"
    if "N = 8 \<and> T = 3"
  proof -
    have "[0..<nat (sint (3 :: i32))] = [0, 1, 2]"
      by (simp add: upt_rec)
    then show ?thesis
      using that
      by (simp add: td_def tasks_def task_def threadFunction_frame bound_def comp_def)
  qed
  show ?thesis
    unfolding n_def [symmetric] c_def [symmetric] m_def [symmetric]
  proof (rule exI [of _ "reduce fp N td"], unfold td_r, intro conjI allI impI)
    show "run_main fp N T = Inr (reduce fp N td)" by (rule run)
    show "start_td (td ! j) \<le> end_td (td ! j)" if "j < n" for j
      using share [OF that] by simp
    show "unat (end_td (td ! j)) - unat (start_td (td ! j)) = c + (if j < m then 1 else 0)"
      if "j < n" for j
      using share [OF that] by simp
    show "map (\<lambda>d. (start_td d, end_td d)) td = [(0, 3), (3, 6), (6, 8)]" if "N = 8 \<and> T = 3"
      using that by (rule ex)
  qed
qed


theorem worker_share_witness:
  "(8 :: u64) \<noteq> 0 \<and> 0 <s (3 :: i32) \<and>
   (\<exists>r. run_main sym_fpu 8 3 = Inr r
      \<and> unat (end_td (threadData r ! 2)) - unat (start_td (threadData r ! 2)) = 2
      \<and> map (\<lambda>d. (start_td d, end_td d)) (threadData r) = [(0, 3), (3, 6), (6, 8)])"
proof -
  have a: "(8 :: u64) \<noteq> 0" by simp
  have b: "0 <s (3 :: i32)" by (simp add: word_sless_alt)
  have n: "nat (sint (3 :: i32)) = 3" by simp
  have u: "unat (8 :: u64) = 8" by simp
  show ?thesis
    using a b worker_share [OF a b, of sym_fpu, unfolded n u] by auto
qed

section \<open>Properties of the worker\<close>

text \<open>
  Claim C2. The worker stores in the \<^verbatim>\<open>sum\<close> field of its slot the running sum, started
  at \<^verbatim>\<open>0.0\<close> and taken in increasing index order, of \<open>f ((i + 0.5) * step)\<close> over
  the indices \<open>start \<le> i < end\<close>, each operation being the double-precision one; for
  an empty range it stores \<^verbatim>\<open>0.0\<close>. The statement needs no ordering of \<open>start\<close> and
  \<open>end\<close>: when \<open>end < start\<close> the list of indices is empty, as the loop is.
\<close>

theorem worker_running_sum:
  "threadFunction fp data =
     data\<lparr>sum_td :=
       foldl (\<lambda>s i. fp_add fp s
                (f fp (fp_mul fp (fp_add fp (fp_of_u64 fp i) (fp_half fp)) (step_td data))))
         (fp_zero fp) (map of_nat [unat (start_td data)..<unat (end_td data)])\<rparr>
   \<and> (start_td data = end_td data \<longrightarrow> sum_td (threadFunction fp data) = fp_zero fp)"
proof -
  have loop: "threadLoop fp data (start_td data) (fp_zero fp) =
      foldl (\<lambda>s i. fp_add fp s
               (f fp (fp_mul fp (fp_add fp (fp_of_u64 fp i) (fp_half fp)) (step_td data))))
        (fp_zero fp) (map of_nat [unat (start_td data)..<unat (end_td data)])"
    using threadLoop_foldl [of fp data "start_td data" "fp_zero fp"]
    by (simp add: sample_def indices_def)
  have "sum_td (threadFunction fp data) = fp_zero fp" if "start_td data = end_td data"
    using that loop by (simp add: threadFunction_def)
  then show ?thesis
    using loop by (simp add: threadFunction_def)
qed


theorem worker_running_sum_witness:
  "threadFunction sym_fpu \<lparr>start_td = 3, end_td = 5, sum_td = SOne, step_td = SHalf\<rparr> =
     \<lparr>start_td = 3, end_td = 5,
      sum_td = SAdd (SAdd SZero
          (SSqrt (SSub SOne (SMul (SMul (SAdd (SConv 3) SHalf) SHalf)
                                   (SMul (SAdd (SConv 3) SHalf) SHalf)))))
          (SSqrt (SSub SOne (SMul (SMul (SAdd (SConv 4) SHalf) SHalf)
                                   (SMul (SAdd (SConv 4) SHalf) SHalf)))),
      step_td = SHalf\<rparr>
   \<and> sum_td (threadFunction sym_fpu
        \<lparr>start_td = 7, end_td = 7, sum_td = SOne, step_td = SHalf\<rparr>) = SZero"
proof -
  have "[unat (3 :: u64)..<unat (5 :: u64)] = [3, 4]" by (simp add: upt_rec)
  then show ?thesis
    using worker_running_sum [of sym_fpu "\<lparr>start_td = 3, end_td = 5, sum_td = SOne, step_td = SHalf\<rparr>"]
          worker_running_sum [of sym_fpu "\<lparr>start_td = 7, end_td = 7, sum_td = SOne, step_td = SHalf\<rparr>"]
    by (simp add: sym_fpu_def f_def)
qed


text \<open>
  Claim C10. Running the worker leaves the \<^verbatim>\<open>start\<close>, \<^verbatim>\<open>end\<close> and \<^verbatim>\<open>step\<close> fields
  of its slot as they are, so that after the worker they hold what the partitioning
  loop wrote; the vector keeps its length and every other slot is unchanged.
\<close>

theorem worker_frame:
  "start_td (threadFunction fp d) = start_td d
   \<and> end_td (threadFunction fp d) = end_td d
   \<and> step_td (threadFunction fp d) = step_td d
   \<and> length (run_worker fp k td) = length td
   \<and> (\<forall>j. j \<noteq> k \<longrightarrow> run_worker fp k td ! j = td ! j)
   \<and> (k < length td \<longrightarrow>
        start_td (run_worker fp k (init_slot fp step k s e td) ! k) = s
      \<and> end_td (run_worker fp k (init_slot fp step k s e td) ! k) = e
      \<and> step_td (run_worker fp k (init_slot fp step k s e td) ! k) = step)"
  by (simp add: threadFunction_frame run_worker_def init_slot_def)


theorem worker_frame_witness:
  "length (run_worker sym_fpu 1
     [\<lparr>start_td = 0, end_td = 1, sum_td = SOne, step_td = SHalf\<rparr>,
      \<lparr>start_td = 1, end_td = 1, sum_td = SOne, step_td = SHalf\<rparr>,
      \<lparr>start_td = 1, end_td = 9, sum_td = SFour, step_td = SHalf\<rparr>]) = 3
   \<and> run_worker sym_fpu 1
     [\<lparr>start_td = 0, end_td = 1, sum_td = SOne, step_td = SHalf\<rparr>,
      \<lparr>start_td = 1, end_td = 1, sum_td = SOne, step_td = SHalf\<rparr>,
      \<lparr>start_td = 1, end_td = 9, sum_td = SFour, step_td = SHalf\<rparr>] ! 2
     = \<lparr>start_td = 1, end_td = 9, sum_td = SFour, step_td = SHalf\<rparr>
   \<and> start_td (run_worker sym_fpu 1 (init_slot sym_fpu SHalf 1 4 6
     [\<lparr>start_td = 0, end_td = 1, sum_td = SOne, step_td = SHalf\<rparr>,
      \<lparr>start_td = 1, end_td = 1, sum_td = SOne, step_td = SHalf\<rparr>,
      \<lparr>start_td = 1, end_td = 9, sum_td = SFour, step_td = SHalf\<rparr>]) ! 1) = 4"
  using worker_frame [of sym_fpu _ 1
     "[\<lparr>start_td = 0, end_td = 1, sum_td = SOne, step_td = SHalf\<rparr>,
      \<lparr>start_td = 1, end_td = 1, sum_td = SOne, step_td = SHalf\<rparr>,
      \<lparr>start_td = 1, end_td = 9, sum_td = SFour, step_td = SHalf\<rparr>]" SHalf 4 6]
  by simp

section \<open>Properties of the reduction\<close>

text \<open>
  Claim C3. For every \<open>N \<ge> 1\<close> and \<open>T \<ge> 1\<close> the program returns; every slot holds
  what its worker left there; \<^verbatim>\<open>totalSum\<close> is the sum of the slots' \<^verbatim>\<open>sum\<close> fields,
  added from \<^verbatim>\<open>0.0\<close> in index order; \<^verbatim>\<open>integralValue\<close> is \<open>step * totalSum\<close> with
  \<open>step = 1.0 / N\<close>; \<^verbatim>\<open>pi_approx\<close> is \<open>4.0 * integralValue\<close>, and it is the value
  written to standard output.
\<close>

theorem reducer_result:
  assumes "N \<noteq> 0" and "0 <s T"
  shows "\<exists>r. run_main fp N T = Inr r
    \<and> threadData r = map (threadFunction fp) (tasks fp N T)
    \<and> totalSum r = foldl (fp_add fp) (fp_zero fp) (map sum_td (threadData r))
    \<and> integralValue r = fp_mul fp (fp_div fp (fp_one fp) (fp_of_u64 fp N)) (totalSum r)
    \<and> pi_approx r = fp_mul fp (fp_four fp) (integralValue r)
    \<and> print_result r = [Text ''Oszacowana wartosc pi: '', Double (pi_approx r), Endl]
    \<and> exit_code r = 0"
  using run_main_closed [OF assms(2), of fp N]
  by (simp add: reduce_def Let_def print_result_def)


theorem reducer_result_witness:
  "(2 :: u64) \<noteq> 0 \<and> 0 <s (2 :: i32) \<and>
   (\<exists>r. run_main sym_fpu 2 2 = Inr r
      \<and> totalSum r = foldl SAdd SZero (map sum_td (threadData r))
      \<and> integralValue r = SMul (SDiv SOne (SConv 2)) (totalSum r)
      \<and> pi_approx r = SMul SFour (integralValue r)
      \<and> print_result r = [Text ''Oszacowana wartosc pi: '', Double (pi_approx r), Endl]
      \<and> exit_code r = 0)"
proof -
  have a: "(2 :: u64) \<noteq> 0" by simp
  have b: "0 <s (2 :: i32)" by (simp add: word_sless_alt)
  have s: "fp_add sym_fpu = SAdd" "fp_zero sym_fpu = SZero" "fp_mul sym_fpu = SMul"
    "fp_div sym_fpu = SDiv" "fp_one sym_fpu = SOne" "fp_four sym_fpu = SFour"
    "fp_of_u64 sym_fpu = SConv"
    by (simp_all add: sym_fpu_def)
  show ?thesis
    using a b reducer_result [OF a b, of sym_fpu, unfolded s] by blast
qed

section \<open>Inputs outside the contract\<close>

lemma threadFunction_empty:
  "start_td d = end_td d \<Longrightarrow> threadFunction fp d = d\<lparr>sum_td := fp_zero fp\<rparr>"
  by (simp add: threadFunction_def threadLoop.simps)

lemma bound_zero_total: "bound 0 0 j = 0"
  by (simp add: bound_def)

lemma tasks_zero:
  "0 <s T \<Longrightarrow> map (threadFunction fp) (tasks fp 0 T) =
     replicate (nat (sint T))
       \<lparr>start_td = 0, end_td = 0, sum_td = fp_zero fp,
        step_td = fp_div fp (fp_one fp) (fp_of_u64 fp 0)\<rparr>"
proof -
  have "threadFunction fp (task fp (fp_div fp (fp_one fp) (fp_of_u64 fp 0)) 0 0 j) =
      \<lparr>start_td = 0, end_td = 0, sum_td = fp_zero fp,
       step_td = fp_div fp (fp_one fp) (fp_of_u64 fp 0)\<rparr>" for j
    by (simp add: task_def bound_zero_total threadFunction_empty)
  then show ?thesis
    by (intro nth_equalityI) (simp_all add: tasks_def)
qed


text \<open>
  Claim C5 says that the program rejects \<open>N = 0\<close> and \<open>T \<le> 0\<close> with an
  invalid-argument failure. It has no such check. On \<open>N = 0\<close>, \<open>T = 1\<close> it runs
  through: the one worker gets the empty range \<open>[0, 0)\<close>, the result printed is
  \<open>4.0 * ((1.0 / 0.0) * (0.0 + 0.0))\<close> and the exit code is 0.
\<close>

theorem no_rejection_counterexample:
  "run_main sym_fpu 0 1 =
     Inr \<lparr>threadData =
            [\<lparr>start_td = 0, end_td = 0, sum_td = SZero, step_td = SDiv SOne (SConv 0)\<rparr>],
          totalSum = SAdd SZero SZero,
          integralValue = SMul (SDiv SOne (SConv 0)) (SAdd SZero SZero),
          pi_approx = SMul SFour (SMul (SDiv SOne (SConv 0)) (SAdd SZero SZero)),
          exit_code = 0\<rparr>"
proof -
  have b: "0 <s (1 :: i32)" by (simp add: word_sless_alt)
  show ?thesis
    unfolding run_main_closed [OF b] tasks_zero [OF b]
    by (simp add: reduce_def Let_def sym_fpu_def)
qed


text \<open>
  Claim C5 as amended. With \<open>N = 0\<close> and \<open>T \<ge> 1\<close> the program proceeds without any
  check: each of the \<open>T\<close> workers gets the empty range \<open>[0, 0)\<close> and stores \<^verbatim>\<open>0.0\<close>,
  the program prints \<open>4.0 * ((1.0 / 0.0) * (0.0 + 0.0 + \<dots> + 0.0))\<close> and returns 0.
  With \<open>T = 0\<close> the run ends at the integer division \<^verbatim>\<open>N / T\<close>, and with \<open>T < 0\<close> at
  the construction of the vectors; neither is a check of the arguments.
\<close>

theorem unvalidated_input:
  "(0 <s T \<longrightarrow>
      (\<exists>r. run_main fp 0 T = Inr r \<and> exit_code r = 0
         \<and> threadData r = replicate (nat (sint T))
              \<lparr>start_td = 0, end_td = 0, sum_td = fp_zero fp,
               step_td = fp_div fp (fp_one fp) (fp_of_u64 fp 0)\<rparr>
         \<and> pi_approx r = fp_mul fp (fp_four fp)
              (fp_mul fp (fp_div fp (fp_one fp) (fp_of_u64 fp 0))
                 (foldl (fp_add fp) (fp_zero fp) (replicate (nat (sint T)) (fp_zero fp))))))
   \<and> (T = 0 \<longrightarrow> run_main fp N T = Inl DivisionByZero)
   \<and> (T <s 0 \<longrightarrow> run_main fp N T = Inl LengthError)"
proof (intro conjI impI)
  assume b: "0 <s T"
  show "\<exists>r. run_main fp 0 T = Inr r \<and> exit_code r = 0
         \<and> threadData r = replicate (nat (sint T))
              \<lparr>start_td = 0, end_td = 0, sum_td = fp_zero fp,
               step_td = fp_div fp (fp_one fp) (fp_of_u64 fp 0)\<rparr>
         \<and> pi_approx r = fp_mul fp (fp_four fp)
              (fp_mul fp (fp_div fp (fp_one fp) (fp_of_u64 fp 0))
                 (foldl (fp_add fp) (fp_zero fp) (replicate (nat (sint T)) (fp_zero fp))))"
    unfolding run_main_closed [OF b] tasks_zero [OF b]
    by (simp add: reduce_def Let_def)
next
  assume "T = 0"
  then show "run_main fp N T = Inl DivisionByZero"
    by (simp add: run_main_def)
next
  assume "T <s 0"
  then show "run_main fp N T = Inl LengthError"
    by (simp add: run_main_def)
qed

theorem unvalidated_input_witness:
  "0 <s (2 :: i32) \<and> (- 3 :: i32) <s 0
   \<and> (\<exists>r. run_main sym_fpu 0 2 = Inr r \<and> exit_code r = 0
         \<and> threadData r =
              [\<lparr>start_td = 0, end_td = 0, sum_td = SZero, step_td = SDiv SOne (SConv 0)\<rparr>,
               \<lparr>start_td = 0, end_td = 0, sum_td = SZero, step_td = SDiv SOne (SConv 0)\<rparr>]
         \<and> pi_approx r =
              SMul SFour (SMul (SDiv SOne (SConv 0)) (SAdd (SAdd SZero SZero) SZero)))
   \<and> run_main sym_fpu 5 0 = Inl DivisionByZero
   \<and> run_main sym_fpu 5 (- 3) = Inl LengthError"
proof -
  have b: "0 <s (2 :: i32)" by (simp add: word_sless_alt)
  have c: "(- 3 :: i32) <s 0" by (simp add: word_sless_alt)
  have n: "replicate (nat (sint (2 :: i32))) x = [x, x]" for x :: 'a
    by (simp add: numeral_2_eq_2)
  have s: "fp_add sym_fpu = SAdd" "fp_zero sym_fpu = SZero" "fp_mul sym_fpu = SMul"
    "fp_div sym_fpu = SDiv" "fp_one sym_fpu = SOne" "fp_four sym_fpu = SFour"
    "fp_of_u64 sym_fpu = SConv"
    by (simp_all add: sym_fpu_def)
  have f: "foldl SAdd SZero [SZero, SZero] = SAdd (SAdd SZero SZero) SZero" by simp
  show ?thesis
    using b c unvalidated_input [of 2 sym_fpu 5, unfolded n s f]
      unvalidated_input [of 0 sym_fpu 5] unvalidated_input [of "- 3" sym_fpu 5]
    by blast
qed

section \<open>Schedules\<close>

text \<open>
  The workers are threads. A run of the program is a sequence of actions: \<open>Main\<close> is
  the next step of the main thread (one iteration of the partitioning loop, which
  writes a slot and starts its worker; one iteration of the joining loop, which needs
  the worker joined to have finished; or the final scaling), and \<open>Worker k\<close> is worker
  \<open>k\<close> running \<^verbatim>\<open>threadFunction\<close> on its slot. A worker reads and writes its own slot
  only, and the main thread does not touch a slot between starting its worker and
  joining it, so a worker's run is one action. An action that cannot be taken (a join
  of a running worker, a worker that is not running) makes the sequence no run.
\<close>

datatype 'd phase = Spawning i32 u64 | Joining i32 'd | Finished 'd

record 'd config =
  phase :: "'d phase"
  slots :: "'d ThreadData list"
  running :: "nat set"

datatype action = Main | Worker nat

fun sched_step :: "'d fpu \<Rightarrow> u64 \<Rightarrow> i32 \<Rightarrow> action \<Rightarrow> 'd config \<Rightarrow> 'd config option" where
  "sched_step fp N T Main c =
     (case phase c of
        Spawning i currentStart \<Rightarrow>
          if i <s T then
            (let step = fp_div fp (fp_one fp) (fp_of_u64 fp N);
                 chunk = N div scast T;
                 remainder = N mod scast T;
                 currentEnd = currentStart + chunk;
                 currentEnd = (if scast i < remainder then currentEnd + 1 else currentEnd)
             in Some (c\<lparr>phase := Spawning (i + 1) currentEnd,
                       slots := init_slot fp step (nat (sint i)) currentStart currentEnd (slots c),
                       running := insert (nat (sint i)) (running c)\<rparr>))
          else Some (c\<lparr>phase := Joining 0 (fp_zero fp)\<rparr>)
      | Joining i acc \<Rightarrow>
          if i <s T then
            (if nat (sint i) \<in> running c then None
             else Some (c\<lparr>phase :=
                    Joining (i + 1) (fp_add fp acc (sum_td (slots c ! nat (sint i))))\<rparr>))
          else
            (let step = fp_div fp (fp_one fp) (fp_of_u64 fp N);
                 integral = fp_mul fp step acc
             in Some (c\<lparr>phase := Finished (fp_mul fp (fp_four fp) integral)\<rparr>))
      | Finished p \<Rightarrow> None)"
| "sched_step fp N T (Worker k) c =
     (if k \<in> running c
      then Some (c\<lparr>slots := run_worker fp k (slots c), running := running c - {k}\<rparr>)
      else None)"

fun exec :: "'d fpu \<Rightarrow> u64 \<Rightarrow> i32 \<Rightarrow> action list \<Rightarrow> 'd config \<Rightarrow> 'd config option" where
  "exec fp N T [] c = Some c"
| "exec fp N T (a # as) c =
     (case sched_step fp N T a c of None \<Rightarrow> None | Some c' \<Rightarrow> exec fp N T as c')"

definition start_config :: "'d fpu \<Rightarrow> i32 \<Rightarrow> 'd config" where
  "start_config fp T =
     \<lparr>phase = Spawning 0 0,
      slots = replicate (unat (scast T :: u64)) (empty_slot fp),
      running = {}\<rparr>"

text \<open>
  The invariant of every run: a slot whose worker has been started holds its task while
  the worker is running and the worker's result afterwards; the accumulator of the
  joining loop is the sum of the results joined so far.
\<close>

definition slot_of :: "'d fpu \<Rightarrow> u64 \<Rightarrow> i32 \<Rightarrow> nat set \<Rightarrow> nat \<Rightarrow> 'd ThreadData" where
  "slot_of fp N T R j =
     (if j \<in> R then tasks fp N T ! j else threadFunction fp (tasks fp N T ! j))"

definition sched_inv :: "'d fpu \<Rightarrow> u64 \<Rightarrow> i32 \<Rightarrow> 'd config \<Rightarrow> bool" where
  "sched_inv fp N T c \<longleftrightarrow>
     length (slots c) = nat (sint T) \<and>
     (case phase c of
        Spawning i cs \<Rightarrow>
          0 \<le> sint i \<and> sint i \<le> sint T
          \<and> unat cs = bound (unat N div nat (sint T)) (unat N mod nat (sint T)) (nat (sint i))
          \<and> running c \<subseteq> {..<nat (sint i)}
          \<and> (\<forall>j < nat (sint i). slots c ! j = slot_of fp N T (running c) j)
      | Joining i acc \<Rightarrow>
          0 \<le> sint i \<and> sint i \<le> sint T
          \<and> running c \<subseteq> {..<nat (sint T)}
          \<and> (\<forall>j < nat (sint T). slots c ! j = slot_of fp N T (running c) j)
          \<and> acc = foldl (fp_add fp) (fp_zero fp)
                (map sum_td (take (nat (sint i)) (map (threadFunction fp) (tasks fp N T))))
      | Finished p \<Rightarrow> p = pi_approx (reduce fp N (map (threadFunction fp) (tasks fp N T))))"

lemma sched_inv_start:
  assumes "0 <s T"
  shows "sched_inv fp N T (start_config fp T)"
proof -
  have pos: "0 \<le> sint T" using assms by (simp add: word_sless_alt)
  then have "unat (scast T :: u64) = nat (sint T)" by (rule unat_scast_nonneg)
  then show ?thesis
    using pos by (simp add: sched_inv_def start_config_def bound_0)
qed

lemma next_end:
  assumes T: "0 <s T" and i0: "0 \<le> sint i" and iT: "i <s T"
    and cs: "unat cs = bound (unat N div nat (sint T)) (unat N mod nat (sint T)) (nat (sint i))"
  defines "ce \<equiv> (if (scast i :: u64) < N mod scast T then cs + N div scast T + 1
                   else cs + N div scast T)"
  shows "unat ce = bound (unat N div nat (sint T)) (unat N mod nat (sint T)) (Suc (nat (sint i)))"
    and "init_slot fp (fp_div fp (fp_one fp) (fp_of_u64 fp N)) (nat (sint i)) cs ce td
      = td[nat (sint i) := tasks fp N T ! nat (sint i)]"
proof -
  let ?n = "nat (sint T)" and ?k = "nat (sint i)"
  let ?c = "unat N div ?n" and ?r = "unat N mod ?n"
  have pos: "0 < sint T" using T by (simp add: word_sless_alt)
  have npos: "0 < ?n" using pos by simp
  have un: "unat (scast T :: u64) = ?n" using pos by (simp add: unat_scast_nonneg)
  have c: "unat (N div scast T) = ?c" by (simp add: unat_div un)
  have r: "unat (N mod scast T) = ?r" by (simp add: unat_mod un)
  have kn: "?k < ?n" using i0 iT by (simp add: word_sless_alt)
  have lt_iff: "(scast i :: u64) < N mod scast T \<longleftrightarrow> ?k < ?r"
    using i0 by (simp add: word_less_nat_alt unat_scast_nonneg r)
  have "Suc ?k \<le> ?n" using kn by (rule Suc_leI)
  then have "bound ?c ?r (Suc ?k) \<le> unat N"
    using npos by (intro bound_le_total)
  moreover have "unat N < 2 ^ 64" using unsigned_less [of N] by simp
  ultimately have small: "bound ?c ?r (Suc ?k) < 2 ^ 64" by linarith
  have cs_eq: "cs = of_nat (bound ?c ?r ?k)"
    using cs by (metis of_nat_unat ucast_id)
  have chunk_eq: "N div scast T = of_nat ?c"
    using c by (metis of_nat_unat ucast_id)
  have ce_eq: "ce = of_nat (bound ?c ?r (Suc ?k))"
    unfolding ce_def cs_eq chunk_eq bound_Suc lt_iff by simp
  show "unat ce = bound ?c ?r (Suc ?k)"
    unfolding ce_eq using small by (simp add: unat_of_nat)
  show "init_slot fp (fp_div fp (fp_one fp) (fp_of_u64 fp N)) ?k cs ce td
      = td[?k := tasks fp N T ! ?k]"
    unfolding cs_eq ce_eq using kn by (simp add: init_slot_eq tasks_nth)
qed

lemma slot_of_remove: "j \<noteq> k \<Longrightarrow> slot_of fp N T (R - {k}) j = slot_of fp N T R j"
  by (simp add: slot_of_def)

lemma slot_of_insert: "j \<noteq> k \<Longrightarrow> slot_of fp N T (insert k R) j = slot_of fp N T R j"
  by (simp add: slot_of_def)

lemma worker_step_slots:
  assumes "k \<in> R" and "k < length td" and "\<forall>j < m. td ! j = slot_of fp N T R j" and "k < m"
  shows "\<forall>j < m. run_worker fp k td ! j = slot_of fp N T (R - {k}) j"
proof (intro allI impI)
  fix j assume jm: "j < m"
  show "run_worker fp k td ! j = slot_of fp N T (R - {k}) j"
  proof (cases "j = k")
    case True
    have "td ! k = tasks fp N T ! k"
      using assms(1,3,4) by (simp add: slot_of_def)
    then show ?thesis
      using True assms(2) by (simp add: run_worker_def slot_of_def)
  next
    case False
    then show ?thesis
      using assms(3) jm by (simp add: run_worker_def slot_of_remove)
  qed
qed

lemma sched_inv_worker:
  assumes inv: "sched_inv fp N T c" and st: "sched_step fp N T (Worker k) c = Some c'"
  shows "sched_inv fp N T c'"
proof -
  have k: "k \<in> running c" and c': "c' = c\<lparr>slots := run_worker fp k (slots c), running := running c - {k}\<rparr>"
    using st by (simp_all split: if_splits)
  have len: "length (slots c) = nat (sint T)" using inv by (simp add: sched_inv_def)
  show ?thesis
  proof (cases "phase c")
    case (Spawning i cs)
    then have a: "0 \<le> sint i" "sint i \<le> sint T"
      "unat cs = bound (unat N div nat (sint T)) (unat N mod nat (sint T)) (nat (sint i))"
      "running c \<subseteq> {..<nat (sint i)}"
      "\<forall>j < nat (sint i). slots c ! j = slot_of fp N T (running c) j"
      using inv by (simp_all add: sched_inv_def)
    have ki: "k < nat (sint i)" using k a(4) by auto
    then have kl: "k < length (slots c)" using a(1,2) len by simp
    have "\<forall>j < nat (sint i). run_worker fp k (slots c) ! j = slot_of fp N T (running c - {k}) j"
      using k kl a(5) ki by (rule worker_step_slots)
    moreover have "running c - {k} \<subseteq> {..<nat (sint i)}" using a(4) by auto
    ultimately show ?thesis
      using Spawning a(1,2,3) len by (simp add: sched_inv_def c' run_worker_def)
  next
    case (Joining i acc)
    then have a: "0 \<le> sint i" "sint i \<le> sint T"
      "running c \<subseteq> {..<nat (sint T)}"
      "\<forall>j < nat (sint T). slots c ! j = slot_of fp N T (running c) j"
      "acc = foldl (fp_add fp) (fp_zero fp)
         (map sum_td (take (nat (sint i)) (map (threadFunction fp) (tasks fp N T))))"
      using inv by (simp_all add: sched_inv_def)
    have kn: "k < nat (sint T)" using k a(3) by auto
    then have kl: "k < length (slots c)" using len by simp
    have "\<forall>j < nat (sint T). run_worker fp k (slots c) ! j = slot_of fp N T (running c - {k}) j"
      using k kl a(4) kn by (rule worker_step_slots)
    moreover have "running c - {k} \<subseteq> {..<nat (sint T)}" using a(3) by auto
    ultimately show ?thesis
      using Joining a(1,2,5) len by (simp add: sched_inv_def c' run_worker_def)
  next
    case (Finished p)
    then show ?thesis
      using inv len by (simp add: sched_inv_def c' run_worker_def)
  qed
qed

lemma sched_inv_main:
  assumes T: "0 <s T" and inv: "sched_inv fp N T c" and st: "sched_step fp N T Main c = Some c'"
  shows "sched_inv fp N T c'"
proof -
  let ?n = "nat (sint T)"
  let ?tf = "map (threadFunction fp) (tasks fp N T)"
  have len: "length (slots c) = ?n" using inv by (simp add: sched_inv_def)
  show ?thesis
  proof (cases "phase c")
    case (Spawning i cs)
    then have a: "0 \<le> sint i" "sint i \<le> sint T"
      "unat cs = bound (unat N div ?n) (unat N mod ?n) (nat (sint i))"
      "running c \<subseteq> {..<nat (sint i)}"
      "\<forall>j < nat (sint i). slots c ! j = slot_of fp N T (running c) j"
      using inv by (simp_all add: sched_inv_def)
    show ?thesis
    proof (cases "i <s T")
      case True
      let ?k = "nat (sint i)"
      define ce where "ce = (if (scast i :: u64) < N mod scast T then cs + N div scast T + 1
                   else cs + N div scast T)"
      have ne: "unat ce = bound (unat N div ?n) (unat N mod ?n) (Suc ?k)"
        unfolding ce_def by (rule next_end(1) [OF T a(1) True a(3)])
      have isl: "init_slot fp (fp_div fp (fp_one fp) (fp_of_u64 fp N)) ?k cs ce (slots c)
          = (slots c)[?k := tasks fp N T ! ?k]"
        unfolding ce_def by (rule next_end(2) [OF T a(1) True a(3)])
      have c': "c' = c\<lparr>phase := Spawning (i + 1) ce,
          slots := (slots c)[?k := tasks fp N T ! ?k],
          running := insert ?k (running c)\<rparr>"
        using st Spawning True isl by (simp add: Let_def ce_def)
      have kS: "nat (sint (i + 1)) = Suc ?k" using a(1) True by (rule nat_sint_succ)
      have b1: "0 \<le> sint (i + 1)" using a(1) True by (simp add: sint_succ_lt)
      have b2: "sint (i + 1) \<le> sint T" using True by (simp add: sint_succ_lt word_sless_alt)
      have kn: "?k < ?n" using a(1) True by (simp add: word_sless_alt)
      have b4: "insert ?k (running c) \<subseteq> {..<Suc ?k}" using a(4) by auto
      have b5: "\<forall>j < Suc ?k. (slots c)[?k := tasks fp N T ! ?k] ! j
          = slot_of fp N T (insert ?k (running c)) j"
      proof (intro allI impI)
        fix j assume "j < Suc ?k"
        show "(slots c)[?k := tasks fp N T ! ?k] ! j = slot_of fp N T (insert ?k (running c)) j"
        proof (cases "j = ?k")
          case True
          then show ?thesis using kn len by (simp add: slot_of_def)
        next
          case False
          then have "j < ?k" using \<open>j < Suc ?k\<close> by simp
          then show ?thesis using False a(5) by (simp add: slot_of_insert)
        qed
      qed
      show ?thesis
        using b1 b2 ne b4 b5 len by (simp add: sched_inv_def c' kS)
    next
      case False
      then have eq: "sint i = sint T" using a(2) by (simp add: word_sless_alt)
      have c': "c' = c\<lparr>phase := Joining 0 (fp_zero fp)\<rparr>"
        using st Spawning False by simp
      show ?thesis
        using a(4,5) eq len T by (simp add: sched_inv_def c' word_sless_alt)
    qed
  next
    case (Joining i acc)
    then have a: "0 \<le> sint i" "sint i \<le> sint T"
      "running c \<subseteq> {..<?n}"
      "\<forall>j < ?n. slots c ! j = slot_of fp N T (running c) j"
      "acc = foldl (fp_add fp) (fp_zero fp) (map sum_td (take (nat (sint i)) ?tf))"
      using inv by (simp_all add: sched_inv_def)
    show ?thesis
    proof (cases "i <s T")
      case True
      let ?k = "nat (sint i)"
      have nr: "?k \<notin> running c" and
        c': "c' = c\<lparr>phase := Joining (i + 1) (fp_add fp acc (sum_td (slots c ! ?k)))\<rparr>"
        using st Joining True by (simp_all split: if_splits)
      have kS: "nat (sint (i + 1)) = Suc ?k" using a(1) True by (rule nat_sint_succ)
      have b1: "0 \<le> sint (i + 1)" using a(1) True by (simp add: sint_succ_lt)
      have b2: "sint (i + 1) \<le> sint T" using True by (simp add: sint_succ_lt word_sless_alt)
      have kn: "?k < ?n" using a(1) True by (simp add: word_sless_alt)
      have sk: "slots c ! ?k = ?tf ! ?k"
        using a(4) kn nr by (simp add: slot_of_def tasks_length)
      have "take (Suc ?k) ?tf = take ?k ?tf @ [?tf ! ?k]"
        using kn by (simp add: take_Suc_conv_app_nth tasks_length)
      then have acc': "fp_add fp acc (sum_td (slots c ! ?k))
          = foldl (fp_add fp) (fp_zero fp) (map sum_td (take (Suc ?k) ?tf))"
        using a(5) sk by simp
      show ?thesis
        using b1 b2 a(3,4) len acc' by (simp add: sched_inv_def c' kS)
    next
      case False
      then have eq: "sint i = sint T" using a(2) by (simp add: word_sless_alt)
      have c': "c' = c\<lparr>phase := Finished (fp_mul fp (fp_four fp)
          (fp_mul fp (fp_div fp (fp_one fp) (fp_of_u64 fp N)) acc))\<rparr>"
        using st Joining False by (simp add: Let_def)
      have "acc = foldl (fp_add fp) (fp_zero fp) (map sum_td ?tf)"
        using a(5) eq by (simp add: tasks_length)
      then show ?thesis
        using len by (simp add: sched_inv_def c' reduce_def Let_def)
    qed
  next
    case (Finished p)
    then show ?thesis using st by simp
  qed
qed

lemma sched_inv_exec:
  assumes "0 <s T"
  shows "sched_inv fp N T c \<Longrightarrow> exec fp N T sched c = Some c' \<Longrightarrow> sched_inv fp N T c'"
proof (induction sched arbitrary: c)
  case Nil
  then show ?case by simp
next
  case (Cons a sched)
  from Cons.prems(2) obtain c1 where s1: "sched_step fp N T a c = Some c1"
    and rest: "exec fp N T sched c1 = Some c'"
    by (auto split: option.splits)
  have "sched_inv fp N T c1"
  proof (cases a)
    case Main
    then show ?thesis using sched_inv_main [OF assms Cons.prems(1)] s1 by simp
  next
    case (Worker k)
    then show ?thesis using sched_inv_worker [OF Cons.prems(1)] s1 by simp
  qed
  then show ?case using rest by (rule Cons.IH)
qed

text \<open>The value a run prints, when the run has reached the end of \<^verbatim>\<open>main\<close>.\<close>

definition printed :: "'d config option \<Rightarrow> 'd option" where
  "printed r = (case r of None \<Rightarrow> None
     | Some c \<Rightarrow> (case phase c of Finished p \<Rightarrow> Some p | _ \<Rightarrow> None))"

lemma printed_Some:
  "printed r = Some p \<longleftrightarrow> (\<exists>c. r = Some c \<and> phase c = Finished p)"
  by (auto simp: printed_def split: option.splits phase.splits)

lemma finished_value:
  assumes "0 <s T" and "printed (exec fp N T sched (start_config fp T)) = Some p"
  shows "p = pi_approx (reduce fp N (map (threadFunction fp) (tasks fp N T)))"
proof -
  obtain c where c: "exec fp N T sched (start_config fp T) = Some c" "phase c = Finished p"
    using assms(2) by (auto simp: printed_Some)
  have "sched_inv fp N T c"
    using sched_inv_exec [OF assms(1) sched_inv_start [OF assms(1)] c(1)] .
  then show ?thesis using c(2) by (simp add: sched_inv_def)
qed

text \<open>No run gets stuck before the end of \<^verbatim>\<open>main\<close>.\<close>

lemma step_enabled:
  assumes "sched_inv fp N T c" and "\<forall>p. phase c \<noteq> Finished p"
  shows "\<exists>a c'. sched_step fp N T a c = Some c'"
proof (cases "phase c")
  case (Spawning i cs)
  then have "\<exists>c'. sched_step fp N T Main c = Some c'" by (simp add: Let_def)
  then show ?thesis by blast
next
  case (Joining i acc)
  show ?thesis
  proof (cases "i <s T \<and> nat (sint i) \<in> running c")
    case True
    then have "\<exists>c'. sched_step fp N T (Worker (nat (sint i))) c = Some c'" by simp
    then show ?thesis by blast
  next
    case False
    then have "\<exists>c'. sched_step fp N T Main c = Some c'" using Joining by (auto simp: Let_def)
    then show ?thesis by blast
  qed
next
  case (Finished p)
  then show ?thesis using assms(2) by simp
qed


text \<open>
  What is left of a run: every action of a run that has not reached the end of
  \<^verbatim>\<open>main\<close> makes this number smaller.
\<close>

definition remaining :: "i32 \<Rightarrow> 'd config \<Rightarrow> nat" where
  "remaining T c =
     (case phase c of
        Spawning i cs \<Rightarrow> 3 * nat (sint T) + 2 - 2 * nat (sint i) + card (running c)
      | Joining i acc \<Rightarrow> nat (sint T) - nat (sint i) + card (running c) + 1
      | Finished p \<Rightarrow> 0)"

lemma sched_inv_running:
  assumes "sched_inv fp N T c" and "\<forall>p. phase c \<noteq> Finished p"
  shows "finite (running c)" and "card (running c) \<le> nat (sint T)"
proof -
  have "running c \<subseteq> {..<nat (sint T)}"
  proof (cases "phase c")
    case (Spawning i cs)
    then have "running c \<subseteq> {..<nat (sint i)}" "0 \<le> sint i" "sint i \<le> sint T"
      using assms(1) by (simp_all add: sched_inv_def)
    then show ?thesis by auto
  next
    case (Joining i acc)
    then show ?thesis using assms(1) by (simp add: sched_inv_def)
  next
    case (Finished p)
    then show ?thesis using assms(2) by simp
  qed
  then show "finite (running c)" by (rule finite_subset) simp
  show "card (running c) \<le> nat (sint T)"
    using subset_eq_atLeast0_lessThan_card \<open>running c \<subseteq> {..<nat (sint T)}\<close>
    by (metis atLeast0LessThan)
qed

lemma spawn_measure:
  "k < n \<Longrightarrow> 3 * n + 2 - 2 * Suc k + Suc r < 3 * n + 2 - 2 * k + (r :: nat)"
  by arith

lemma join_measure: "k < n \<Longrightarrow> n - Suc k + r + 1 < n - k + (r :: nat) + 1"
  by arith

lemma remaining_step:
  assumes inv: "sched_inv fp N T c" and nf: "\<forall>p. phase c \<noteq> Finished p"
    and st: "sched_step fp N T a c = Some c'"
  shows "remaining T c' < remaining T c"
proof (cases a)
  case (Worker k)
  then have k: "k \<in> running c"
    and c': "c' = c\<lparr>slots := run_worker fp k (slots c), running := running c - {k}\<rparr>"
    using st by (simp_all split: if_splits)
  have fin: "finite (running c)" using sched_inv_running(1) [OF inv nf] .
  have "card (running c - {k}) < card (running c)"
    using fin k by (rule card_Diff1_less)
  then show ?thesis
    using nf by (cases "phase c") (simp_all add: remaining_def c')
next
  case Main
  show ?thesis
  proof (cases "phase c")
    case (Spawning i cs)
    then have a: "0 \<le> sint i" "sint i \<le> sint T" "running c \<subseteq> {..<nat (sint i)}"
      using inv by (simp_all add: sched_inv_def)
    have fin: "finite (running c)" using sched_inv_running(1) [OF inv nf] .
    show ?thesis
    proof (cases "i <s T")
      case True
      have kS: "nat (sint (i + 1)) = Suc (nat (sint i))" using a(1) True by (rule nat_sint_succ)
      have kn: "nat (sint i) < nat (sint T)" using a(1) True by (simp add: word_sless_alt)
      have "nat (sint i) \<notin> running c" using a(3) by auto
      then have cd: "card (insert (nat (sint i)) (running c)) = Suc (card (running c))"
        using fin by simp
      have ph: "phase c' = Spawning (i + 1)
          (if (scast i :: u64) < N mod scast T then cs + N div scast T + 1 else cs + N div scast T)"
        and ru: "running c' = insert (nat (sint i)) (running c)"
        using st Main Spawning True by (auto simp: Let_def)
      have "remaining T c' = 3 * nat (sint T) + 2 - 2 * Suc (nat (sint i)) + Suc (card (running c))"
        by (simp add: remaining_def ph ru kS cd)
      moreover have "remaining T c = 3 * nat (sint T) + 2 - 2 * nat (sint i) + card (running c)"
        unfolding remaining_def Spawning by simp
      ultimately show ?thesis using spawn_measure [OF kn] by (simp only:)
    next
      case False
      then have eq: "sint i = sint T" using a(2) by (simp add: word_sless_alt)
      have c': "c' = c\<lparr>phase := Joining 0 (fp_zero fp)\<rparr>"
        using st Main Spawning False by simp
      show ?thesis by (simp add: remaining_def c' Spawning eq)
    qed
  next
    case (Joining i acc)
    then have a: "0 \<le> sint i" "sint i \<le> sint T"
      using inv by (simp_all add: sched_inv_def)
    show ?thesis
    proof (cases "i <s T")
      case True
      have kS: "nat (sint (i + 1)) = Suc (nat (sint i))" using a(1) True by (rule nat_sint_succ)
      have kn: "nat (sint i) < nat (sint T)" using a(1) True by (simp add: word_sless_alt)
      have c': "c' = c\<lparr>phase := Joining (i + 1)
          (fp_add fp acc (sum_td (slots c ! nat (sint i))))\<rparr>"
        using st Main Joining True by (simp split: if_splits)
      have "remaining T c' = nat (sint T) - Suc (nat (sint i)) + card (running c) + 1"
        by (simp add: remaining_def c' kS)
      moreover have "remaining T c = nat (sint T) - nat (sint i) + card (running c) + 1"
        unfolding remaining_def Joining by simp
      ultimately show ?thesis using join_measure [OF kn] by (simp only:)
    next
      case False
      have "\<exists>p. c' = c\<lparr>phase := Finished p\<rparr>"
        using st Main Joining False by (auto simp: Let_def)
      then show ?thesis by (auto simp: remaining_def Joining)
    qed
  next
    case (Finished p)
    then show ?thesis using nf by simp
  qed
qed

lemma sched_inv_step:
  assumes "0 <s T" and "sched_inv fp N T c" and "sched_step fp N T a c = Some c'"
  shows "sched_inv fp N T c'"
proof (cases a)
  case Main
  then show ?thesis using sched_inv_main [OF assms(1,2)] assms(3) by simp
next
  case (Worker k)
  then show ?thesis using sched_inv_worker [OF assms(2)] assms(3) by simp
qed

text \<open>Every run can be continued to the end of \<^verbatim>\<open>main\<close>.\<close>

lemma run_completes:
  assumes "0 <s T"
  shows "sched_inv fp N T c \<Longrightarrow> \<exists>sched p. printed (exec fp N T sched c) = Some p"
proof (induction "remaining T c" arbitrary: c rule: less_induct)
  case less
  show ?case
  proof (cases "\<exists>p. phase c = Finished p")
    case True
    then obtain p where "phase c = Finished p" by blast
    then have "printed (exec fp N T [] c) = Some p" by (simp add: printed_def)
    then show ?thesis by blast
  next
    case False
    then have nf: "\<forall>p. phase c \<noteq> Finished p" by simp
    obtain a c1 where s1: "sched_step fp N T a c = Some c1"
      using step_enabled [OF less.prems nf] by blast
    have inv1: "sched_inv fp N T c1" using assms less.prems s1 by (rule sched_inv_step)
    have "remaining T c1 < remaining T c" using less.prems nf s1 by (rule remaining_step)
    then obtain sched p where "printed (exec fp N T sched c1) = Some p"
      using less.hyps inv1 by blast
    then have "printed (exec fp N T (a # sched) c) = Some p" using s1 by simp
    then show ?thesis by blast
  qed
qed

text \<open>
  Claim C8. For fixed \<open>N\<close> and \<open>T \<ge> 1\<close> some run reaches the end of \<^verbatim>\<open>main\<close>, and
  every run that does prints the same \<^verbatim>\<open>pi_approx\<close>, whatever the order in which the
  workers ran: the value of the sequential reading \<open>run_main\<close>. So two runs on the
  same inputs print the same double. Equality is equality of the doubles, for any
  double arithmetic whose operations are functions of their operands.
\<close>

theorem schedule_independent:
  assumes "0 <s T"
  shows "\<exists>r. run_main fp N T = Inr r
    \<and> (\<exists>sched. printed (exec fp N T sched (start_config fp T)) = Some (pi_approx r))
    \<and> (\<forall>sched p. printed (exec fp N T sched (start_config fp T)) = Some p
          \<longrightarrow> p = pi_approx r)"
proof -
  let ?r = "reduce fp N (map (threadFunction fp) (tasks fp N T))"
  have run: "run_main fp N T = Inr ?r" using assms by (rule run_main_closed)
  have all: "p = pi_approx ?r"
    if "printed (exec fp N T sched (start_config fp T)) = Some p" for sched p
    using assms that by (rule finished_value)
  obtain sched p where "printed (exec fp N T sched (start_config fp T)) = Some p"
    using run_completes [OF assms sched_inv_start [OF assms, where fp = fp and N = N]]
    by (elim exE)
  then have some: "\<exists>sched. printed (exec fp N T sched (start_config fp T)) = Some (pi_approx ?r)"
    using all by blast
  show ?thesis
  proof (intro exI [of _ ?r] conjI allI impI)
    show "run_main fp N T = Inr ?r" by (rule run)
    show "\<exists>sched. printed (exec fp N T sched (start_config fp T)) = Some (pi_approx ?r)"
      by (rule some)
    show "p = pi_approx ?r"
      if "printed (exec fp N T sched (start_config fp T)) = Some p" for sched p
      using that by (rule all)
  qed
qed

theorem schedule_independent_witness:
  "0 <s (2 :: i32)
   \<and> printed (exec sym_fpu 3 2 [Main, Main, Worker 1, Main, Worker 0, Main, Main, Main]
        (start_config sym_fpu 2)) \<noteq> None
   \<and> printed (exec sym_fpu 3 2 [Main, Main, Worker 1, Main, Worker 0, Main, Main, Main]
        (start_config sym_fpu 2))
     = printed (exec sym_fpu 3 2 [Main, Worker 0, Main, Main, Main, Worker 1, Main, Main]
        (start_config sym_fpu 2))
   \<and> printed (exec sym_fpu 3 2 [Main, Main, Main, Main] (start_config sym_fpu 2)) = None"
proof -
  let ?a = "printed (exec sym_fpu 3 2 [Main, Main, Worker 1, Main, Worker 0, Main, Main, Main]
        (start_config sym_fpu 2))"
  let ?b = "printed (exec sym_fpu 3 2 [Main, Worker 0, Main, Main, Main, Worker 1, Main, Main]
        (start_config sym_fpu 2))"
  have T: "0 <s (2 :: i32)" by (simp add: word_sless_alt)
  have a: "?a \<noteq> None" by code_simp
  have b: "?b \<noteq> None" by code_simp
  have blocked: "printed (exec sym_fpu 3 2 [Main, Main, Main, Main] (start_config sym_fpu 2)) = None"
    by code_simp
  obtain p1 p2 where p: "?a = Some p1" "?b = Some p2" using a b by auto
  from schedule_independent [OF T, of sym_fpu 3]
  obtain r where r: "run_main sym_fpu 3 2 = Inr r
    \<and> (\<exists>sched. printed (exec sym_fpu 3 2 sched (start_config sym_fpu 2)) = Some (pi_approx r))
    \<and> (\<forall>sched p. printed (exec sym_fpu 3 2 sched (start_config sym_fpu 2)) = Some p
          \<longrightarrow> p = pi_approx r)"
    by (elim exE)
  then have all: "\<forall>sched p. printed (exec sym_fpu 3 2 sched (start_config sym_fpu 2)) = Some p
          \<longrightarrow> p = pi_approx r"
    by simp
  have "p1 = pi_approx r" using all [rule_format, OF p(1)] .
  moreover have "p2 = pi_approx r" using all [rule_format, OF p(2)] .
  ultimately have "?a = ?b" using p by simp
  then show ?thesis using T a blocked by simp
qed

section \<open>IEEE 754 double precision\<close>

text \<open>
  One arithmetic for \<^verbatim>\<open>double\<close>: IEEE 754 binary64 with rounding to nearest, ties to
  even, every operation rounded once (no fused multiply-add, no wider intermediate
  result), \<^verbatim>\<open>std::sqrt\<close> correctly rounded, and the conversion from
  \<^verbatim>\<open>unsigned long long\<close> rounded the same way. A double is a finite value \<open>Num r\<close>
  (with \<open>Num 0\<close> for \<open>+0\<close>), \<open>-0\<close>, an infinity, or a NaN; the payload of a NaN is not
  modelled. The operations round whatever real their operands hold; their results
  are on the grid of the format. The exponent of a real is its floored binary
  logarithm, so a concrete value is computed with the lemmas \<open>rnd_pow2\<close>, \<open>rnd_grid\<close>
  and \<open>rnd_near_grid\<close> below rather than by evaluation.
\<close>

datatype double = Num real | NegZero | PosInf | NegInf | NaN

text \<open>Rounding a real to the nearest integer, a tie to the even one.\<close>

definition rhe :: "real \<Rightarrow> int" where
  "rhe x =
     (let n = \<lfloor>x\<rfloor>; d = x - of_int n
      in if d < 1 / 2 then n else if 1 / 2 < d then n + 1 else if even n then n else n + 1)"

text \<open>
  A positive real \<open>r\<close> is rounded on the grid of its binade: the multiples of
  \<open>2 powi (e - 52)\<close>, where \<open>e\<close> is the exponent of \<open>r\<close>, and at least \<open>-1022\<close>: below
  \<open>2 powi (-1022)\<close> the grid is the one of the subnormal numbers.
\<close>

definition expo :: "real \<Rightarrow> int" where
  "expo r = max \<lfloor>log 2 r\<rfloor> (- 1022)"

definition rnd_abs :: "real \<Rightarrow> real" where
  "rnd_abs r = of_int (rhe (r / 2 powi (expo r - 52))) * 2 powi (expo r - 52)"

text \<open>
  The double of a sign and a magnitude: overflow gives an infinity, underflow to zero
  keeps the sign.
\<close>

definition pack :: "bool \<Rightarrow> real \<Rightarrow> double" where
  "pack neg r =
     (let v = (if r = 0 then 0 else rnd_abs r)
      in if 2 ^ 1024 \<le> v then (if neg then NegInf else PosInf)
         else if v = 0 then (if neg then NegZero else Num 0)
         else Num (if neg then - v else v))"

definition rnd :: "real \<Rightarrow> double" where
  "rnd r = pack (r < 0) \<bar>r\<bar>"


text \<open>The operations, with the special cases of the standard.\<close>

fun val :: "double \<Rightarrow> real" where
  "val (Num r) = r"
| "val d = 0"

fun is_neg :: "double \<Rightarrow> bool" where
  "is_neg (Num r) = (r < 0)"
| "is_neg NegZero = True"
| "is_neg NegInf = True"
| "is_neg d = False"

definition is_inf :: "double \<Rightarrow> bool" where
  "is_inf d \<longleftrightarrow> d = PosInf \<or> d = NegInf"

definition is_zero :: "double \<Rightarrow> bool" where
  "is_zero d \<longleftrightarrow> d = Num 0 \<or> d = NegZero"

definition dadd :: "double \<Rightarrow> double \<Rightarrow> double" where
  "dadd x y =
     (if x = NaN \<or> y = NaN then NaN
      else if is_inf x then (if is_inf y \<and> y \<noteq> x then NaN else x)
      else if is_inf y then y
      else if x = NegZero \<and> y = NegZero then NegZero
      else rnd (val x + val y))"

fun dneg :: "double \<Rightarrow> double" where
  "dneg (Num r) = (if r = 0 then NegZero else Num (- r))"
| "dneg NegZero = Num 0"
| "dneg PosInf = NegInf"
| "dneg NegInf = PosInf"
| "dneg NaN = NaN"

definition dsub :: "double \<Rightarrow> double \<Rightarrow> double" where
  "dsub x y = dadd x (dneg y)"

definition dmul :: "double \<Rightarrow> double \<Rightarrow> double" where
  "dmul x y =
     (if x = NaN \<or> y = NaN then NaN
      else if (is_inf x \<and> is_zero y) \<or> (is_zero x \<and> is_inf y) then NaN
      else if is_inf x \<or> is_inf y then (if is_neg x \<noteq> is_neg y then NegInf else PosInf)
      else pack (is_neg x \<noteq> is_neg y) (\<bar>val x\<bar> * \<bar>val y\<bar>))"

definition ddiv :: "double \<Rightarrow> double \<Rightarrow> double" where
  "ddiv x y =
     (if x = NaN \<or> y = NaN then NaN
      else if (is_inf x \<and> is_inf y) \<or> (is_zero x \<and> is_zero y) then NaN
      else if is_inf x \<or> is_zero y then (if is_neg x \<noteq> is_neg y then NegInf else PosInf)
      else if is_inf y then (if is_neg x \<noteq> is_neg y then NegZero else Num 0)
      else pack (is_neg x \<noteq> is_neg y) (\<bar>val x\<bar> / \<bar>val y\<bar>))"

fun dsqrt :: "double \<Rightarrow> double" where
  "dsqrt (Num r) = (if r < 0 then NaN else rnd (sqrt r))"
| "dsqrt NegZero = NegZero"
| "dsqrt PosInf = PosInf"
| "dsqrt NegInf = NaN"
| "dsqrt NaN = NaN"

definition u64_real :: "u64 \<Rightarrow> real" where
  "u64_real w = real (unat w)"

definition d_of_u64 :: "u64 \<Rightarrow> double" where
  "d_of_u64 w = rnd (u64_real w)"

definition ieee_fpu :: "double fpu" where
  "ieee_fpu =
     \<lparr>fp_zero = Num 0, fp_half = Num (1 / 2), fp_one = Num 1, fp_four = Num 4,
      fp_of_u64 = d_of_u64, fp_add = dadd, fp_sub = dsub, fp_mul = dmul, fp_div = ddiv,
      fp_sqrt = dsqrt\<rparr>"


text \<open>
  The sample point \<^verbatim>\<open>x = (static_cast<double>(i) + 0.5) * data.step\<close> of the worker's loop
  and the width \<^verbatim>\<open>step = 1.0 / static_cast<double>(N)\<close> of \<^verbatim>\<open>main\<close>.
\<close>

definition midpoint :: "'d fpu \<Rightarrow> 'd \<Rightarrow> u64 \<Rightarrow> 'd" where
  "midpoint fp step i = fp_mul fp (fp_add fp (fp_of_u64 fp i) (fp_half fp)) step"

definition step_of :: "'d fpu \<Rightarrow> u64 \<Rightarrow> 'd" where
  "step_of fp N = fp_div fp (fp_one fp) (fp_of_u64 fp N)"


lemma sample_midpoint: "sample fp step i = f fp (midpoint fp step i)"
  by (simp add: sample_def midpoint_def)

lemma ieee_sel:
  "fp_zero ieee_fpu = Num 0" "fp_half ieee_fpu = Num (1 / 2)" "fp_one ieee_fpu = Num 1"
  "fp_four ieee_fpu = Num 4" "fp_of_u64 ieee_fpu = d_of_u64" "fp_add ieee_fpu = dadd"
  "fp_sub ieee_fpu = dsub" "fp_mul ieee_fpu = dmul" "fp_div ieee_fpu = ddiv"
  "fp_sqrt ieee_fpu = dsqrt"
  by (simp_all add: ieee_fpu_def)


subsection \<open>Rounding to the nearest integer\<close>

lemma rhe_of_int [simp]: "rhe (of_int n) = n"
  by (simp add: rhe_def)

lemma rhe_cases: "rhe x = \<lfloor>x\<rfloor> \<or> rhe x = \<lfloor>x\<rfloor> + 1"
  by (simp add: rhe_def Let_def)

lemma rhe_mono: "x \<le> y \<Longrightarrow> rhe x \<le> rhe y"
proof -
  assume xy: "x \<le> y"
  then have fl: "\<lfloor>x\<rfloor> \<le> \<lfloor>y\<rfloor>" by (rule floor_mono)
  show ?thesis
  proof (cases "\<lfloor>x\<rfloor> = \<lfloor>y\<rfloor>")
    case True
    then have "x - of_int \<lfloor>x\<rfloor> \<le> y - of_int \<lfloor>y\<rfloor>" using xy by simp
    then show ?thesis using True by (auto simp: rhe_def Let_def)
  next
    case False
    then have "\<lfloor>x\<rfloor> + 1 \<le> \<lfloor>y\<rfloor>" using fl by simp
    moreover have "rhe x \<le> \<lfloor>x\<rfloor> + 1" using rhe_cases [of x] by auto
    moreover have "\<lfloor>y\<rfloor> \<le> rhe y" using rhe_cases [of y] by auto
    ultimately show ?thesis by linarith
  qed
qed

lemma rhe_error: "\<bar>of_int (rhe x) - x\<bar> \<le> 1 / 2"
proof -
  have "of_int \<lfloor>x\<rfloor> \<le> x" "x < of_int \<lfloor>x\<rfloor> + 1" by linarith+
  then show ?thesis by (auto simp: rhe_def Let_def)
qed

lemma rhe_down:
  assumes "of_int n \<le> x" and "x < of_int n + 1 / 2"
  shows "rhe x = n"
proof -
  have "\<lfloor>x\<rfloor> = n" using assms by (intro floor_unique) simp_all
  then show ?thesis using assms by (simp add: rhe_def Let_def)
qed

lemma rhe_tie_even:
  assumes "even n" and "of_int n \<le> x" and "x \<le> of_int n + 1 / 2"
  shows "rhe x = n"
proof -
  have "\<lfloor>x\<rfloor> = n" using assms by (intro floor_unique) simp_all
  then show ?thesis using assms by (simp add: rhe_def Let_def)
qed

lemma floor_log2_eq:
  assumes "0 < r"
  shows "\<lfloor>log 2 r\<rfloor> = e \<longleftrightarrow> 2 powi e \<le> r \<and> r < 2 powi (e + 1)"
proof -
  have "(2 :: real) powr of_int k = 2 powi k" for k
    by (simp add: powr_real_of_int' )
  then show ?thesis
    using floor_log_eq_powr_iff [of r 2 e] assms
    by (metis of_int_1 of_int_add one_less_numeral_iff semiring_norm(76))
qed

subsection \<open>Rounding within a binade\<close>

lemma pow2_le_iff: "(2 :: real) powi m \<le> 2 powi n \<longleftrightarrow> m \<le> n"
proof
  assume le: "(2 :: real) powi m \<le> 2 powi n"
  show "m \<le> n"
  proof (rule ccontr)
    assume "\<not> m \<le> n"
    then have "n < m" by simp
    then have "(2 :: real) powi n < 2 powi m" by (intro power_int_strict_increasing) simp_all
    then show False using le by simp
  qed
next
  assume "m \<le> n"
  then show "(2 :: real) powi m \<le> 2 powi n" by (intro power_int_increasing) simp_all
qed

lemma pow2_less_iff: "(2 :: real) powi m < 2 powi n \<longleftrightarrow> m < n"
  using pow2_le_iff [of n m] by (simp add: not_le [symmetric])

lemma pow2_split: "(2 :: real) powi (e + int k) = 2 ^ k * 2 powi e"
  using power_int_add [of "2 :: real" "int k" e] by (simp add: add.commute)

lemma pow2_split_sub: "(2 :: real) powi e = 2 ^ k * 2 powi (e - int k)"
  using pow2_split [of "e - int k" k] by simp

lemma expo_binade:
  assumes "2 powi e \<le> r" and "r < 2 powi (e + 1)" and "- 1022 \<le> e"
  shows "expo r = e"
proof -
  have "0 < (2 :: real) powi e" by simp
  then have "0 < r" using assms(1) by linarith
  then have "\<lfloor>log 2 r\<rfloor> = e" using assms(1,2) by (simp add: floor_log2_eq)
  then show ?thesis using assms(3) by (simp add: expo_def)
qed

lemma binade_exists:
  assumes "0 < r"
  shows "2 powi \<lfloor>log 2 r\<rfloor> \<le> r \<and> r < 2 powi (\<lfloor>log 2 r\<rfloor> + 1)"
  using floor_log2_eq [OF assms, of "\<lfloor>log 2 r\<rfloor>"] by simp

lemma rnd_abs_binade:
  assumes "2 powi e \<le> r" and "r < 2 powi (e + 1)" and "- 1022 \<le> e"
  shows "rnd_abs r = of_int (rhe (r / 2 powi (e - 52))) * 2 powi (e - 52)"
  by (simp add: rnd_abs_def expo_binade [OF assms])

lemma scaled_bounds:
  fixes r :: real
  assumes "2 powi e \<le> r" and "r < 2 powi (e + 1)"
  shows "2 ^ 52 \<le> r / 2 powi (e - 52)" and "r / 2 powi (e - 52) < 2 ^ 53"
proof -
  have q: "0 < (2 :: real) powi (e - 52)" by simp
  have a: "(2 :: real) powi e = 2 ^ 52 * 2 powi (e - 52)"
    using pow2_split [of "e - 52" 52] by simp
  have b: "(2 :: real) powi (e + 1) = 2 ^ 53 * 2 powi (e - 52)"
    using pow2_split [of "e - 52" 53] by (simp add: add.commute)
  show "2 ^ 52 \<le> r / 2 powi (e - 52)"
    using assms(1) q unfolding a by (simp add: le_divide_eq)
  show "r / 2 powi (e - 52) < 2 ^ 53"
    using assms(2) q unfolding b by (simp add: divide_less_eq)
qed

lemma rhe_scaled_bounds:
  fixes r :: real
  assumes "2 powi e \<le> r" and "r < 2 powi (e + 1)"
  shows "2 ^ 52 \<le> rhe (r / 2 powi (e - 52))" and "rhe (r / 2 powi (e - 52)) \<le> 2 ^ 53"
proof -
  have "rhe (of_int (2 ^ 52)) \<le> rhe (r / 2 powi (e - 52))"
    using scaled_bounds(1) [OF assms] by (intro rhe_mono) simp
  then show "2 ^ 52 \<le> rhe (r / 2 powi (e - 52))" by (simp only: rhe_of_int)
  have "rhe (r / 2 powi (e - 52)) \<le> rhe (of_int (2 ^ 53))"
    using scaled_bounds(2) [OF assms] by (intro rhe_mono) simp
  then show "rhe (r / 2 powi (e - 52)) \<le> 2 ^ 53" by (simp only: rhe_of_int)
qed

lemma rnd_abs_bounds:
  assumes "2 powi e \<le> r" and "r < 2 powi (e + 1)" and "- 1022 \<le> e"
  shows "2 powi e \<le> rnd_abs r" and "rnd_abs r \<le> 2 powi (e + 1)"
proof -
  have q: "0 < (2 :: real) powi (e - 52)" by simp
  have a: "(2 :: real) powi e = 2 ^ 52 * 2 powi (e - 52)"
    using pow2_split [of "e - 52" 52] by simp
  have b: "(2 :: real) powi (e + 1) = 2 ^ 53 * 2 powi (e - 52)"
    using pow2_split [of "e - 52" 53] by (simp add: add.commute)
  have lo: "(2 :: real) ^ 52 \<le> of_int (rhe (r / 2 powi (e - 52)))"
    using rhe_scaled_bounds(1) [OF assms(1,2)] by (metis of_int_le_iff of_int_numeral of_int_power)
  have hi: "of_int (rhe (r / 2 powi (e - 52))) \<le> (2 :: real) ^ 53"
    using rhe_scaled_bounds(2) [OF assms(1,2)] by (metis of_int_le_iff of_int_numeral of_int_power)
  show "2 powi e \<le> rnd_abs r"
    unfolding rnd_abs_binade [OF assms] a using lo q by (intro mult_right_mono) simp_all
  show "rnd_abs r \<le> 2 powi (e + 1)"
    unfolding rnd_abs_binade [OF assms] b using hi q by (intro mult_right_mono) simp_all
qed

lemma rnd_abs_mono:
  assumes "2 powi (- 1022) \<le> r" and "r \<le> s"
  shows "rnd_abs r \<le> rnd_abs s"
proof -
  have r0: "0 < r" using assms(1) zero_less_power_int [of "2 :: real" "- 1022"] by linarith
  then have s0: "0 < s" using assms(2) by linarith
  define e where "e = \<lfloor>log 2 r\<rfloor>"
  define e' where "e' = \<lfloor>log 2 s\<rfloor>"
  have br: "2 powi e \<le> r" "r < 2 powi (e + 1)"
    using binade_exists [OF r0] by (simp_all add: e_def)
  have bs: "2 powi e' \<le> s" "s < 2 powi (e' + 1)"
    using binade_exists [OF s0] by (simp_all add: e'_def)
  have "(2 :: real) powi (- 1022) < 2 powi (e + 1)" using assms(1) br(2) by linarith
  then have "- 1022 < e + 1" unfolding pow2_less_iff .
  then have er: "- 1022 \<le> e" by simp
  have "(2 :: real) powi e < 2 powi (e' + 1)" using br(1) assms(2) bs(2) by linarith
  then have "e < e' + 1" unfolding pow2_less_iff .
  then have ee: "e \<le> e'" by simp
  then have es: "- 1022 \<le> e'" using er by simp
  show ?thesis
  proof (cases "e = e'")
    case True
    have "r / 2 powi (e - 52) \<le> s / 2 powi (e - 52)"
      using assms(2) by (simp add: divide_right_mono)
    then have "rhe (r / 2 powi (e - 52)) \<le> rhe (s / 2 powi (e - 52))" by (rule rhe_mono)
    then have "(of_int (rhe (r / 2 powi (e - 52))) :: real) \<le> of_int (rhe (s / 2 powi (e - 52)))"
      by simp
    then show ?thesis
      unfolding rnd_abs_binade [OF br er] rnd_abs_binade [OF bs [folded True] er]
      by (intro mult_right_mono) simp_all
  next
    case False
    then have "e + 1 \<le> e'" using ee by simp
    then have "(2 :: real) powi (e + 1) \<le> 2 powi e'" unfolding pow2_le_iff .
    then show ?thesis
      using rnd_abs_bounds(2) [OF br er] rnd_abs_bounds(1) [OF bs es] by linarith
  qed
qed

lemma grid_near:
  assumes m: "2 ^ 52 \<le> m" "m < 2 ^ 53" and e: "- 1022 \<le> e" and d0: "0 \<le> d"
    and d: "d < 2 powi (e - 53) \<or> (even m \<and> d \<le> 2 powi (e - 53))"
  shows "rnd_abs (of_int m * 2 powi (e - 52) + d) = of_int m * 2 powi (e - 52)"
proof -
  define q :: real where "q = 2 powi (e - 52)"
  define r where "r = of_int m * q + d"
  have q0: "0 < q" by (simp add: q_def)
  have half: "(2 :: real) powi (e - 53) = q / 2"
    using pow2_split [of "e - 53" 1] by (simp add: q_def)
  have lo: "(2 :: real) powi e = 2 ^ 52 * q"
    using pow2_split [of "e - 52" 52] by (simp add: q_def)
  have hi: "(2 :: real) powi (e + 1) = 2 ^ 53 * q"
    using pow2_split [of "e - 52" 53] by (simp add: q_def add.commute)
  have m1: "(2 :: real) ^ 52 \<le> of_int m"
    using m(1) by (metis of_int_le_iff of_int_numeral of_int_power)
  have m2: "(of_int m :: real) + 1 \<le> 2 ^ 53"
  proof -
    have "m + 1 \<le> 2 ^ 53" using m(2) by simp
    then have "(of_int (m + 1) :: real) \<le> of_int (2 ^ 53)" by (simp only: of_int_le_iff)
    then show ?thesis by simp
  qed
  have dq: "d \<le> q / 2" using d half by auto
  have b1: "2 powi e \<le> r"
  proof -
    have "2 ^ 52 * q \<le> of_int m * q" using m1 q0 by (intro mult_right_mono) simp_all
    then show ?thesis unfolding lo r_def using d0 by linarith
  qed
  have b2: "r < 2 powi (e + 1)"
  proof -
    have "(of_int m + 1) * q \<le> 2 ^ 53 * q" using m2 q0 by (intro mult_right_mono) simp_all
    moreover have "r < (of_int m + 1) * q"
      unfolding r_def using dq q0 by (simp add: algebra_simps)
    ultimately show ?thesis unfolding hi by linarith
  qed
  have sc: "r / q = of_int m + d / q"
    unfolding r_def using q0 by (simp add: field_simps)
  have "rhe (r / q) = m"
  proof (cases "d < q / 2")
    case True
    then have "d / q < 1 / 2" using q0 by (simp add: field_simps)
    moreover have "0 \<le> d / q" using d0 q0 by simp
    ultimately show ?thesis unfolding sc by (intro rhe_down) simp_all
  next
    case False
    then have ev: "even m" and "d \<le> q / 2" using d half by auto
    then have "d / q \<le> 1 / 2" using q0 by (simp add: field_simps)
    moreover have "0 \<le> d / q" using d0 q0 by simp
    ultimately show ?thesis unfolding sc using ev by (intro rhe_tie_even) simp_all
  qed
  then have "rnd_abs r = of_int m * q"
    using rnd_abs_binade [OF b1 b2 e] by (simp add: q_def)
  then show ?thesis by (simp add: r_def q_def)
qed

lemma rnd_abs_grid:
  assumes "2 ^ 52 \<le> m" and "m < 2 ^ 53" and "- 1022 \<le> e"
  shows "rnd_abs (of_int m * 2 powi (e - 52)) = of_int m * 2 powi (e - 52)"
  using grid_near [OF assms, of 0] by simp

lemma rnd_abs_pow2:
  assumes "- 1022 \<le> k"
  shows "rnd_abs (2 powi k) = 2 powi k"
proof -
  have "(2 :: real) powi k = of_int (2 ^ 52) * 2 powi (k - 52)"
    using pow2_split [of "k - 52" 52] by simp
  then show ?thesis
    using rnd_abs_grid [of "2 ^ 52" k] assms by simp
qed

lemma pow2_min_le:
  fixes r :: real
  assumes "2 powi (- 1022) \<le> r" and "r \<le> 2 powi k"
  shows "- 1022 \<le> k"
proof -
  have "(2 :: real) powi (- 1022) \<le> 2 powi k" using assms by linarith
  then show ?thesis unfolding pow2_le_iff .
qed

lemma rnd_abs_le_pow2:
  assumes "2 powi (- 1022) \<le> r" and "r \<le> 2 powi k"
  shows "rnd_abs r \<le> 2 powi k"
  using rnd_abs_mono [OF assms] rnd_abs_pow2 [OF pow2_min_le [OF assms]] by simp

lemma rnd_abs_ge_pow2:
  assumes "- 1022 \<le> k" and "2 powi k \<le> r"
  shows "2 powi k \<le> rnd_abs r"
proof -
  have "(2 :: real) powi (- 1022) \<le> 2 powi k" using assms(1) unfolding pow2_le_iff .
  then have "rnd_abs (2 powi k) \<le> rnd_abs r" using assms(2) by (intro rnd_abs_mono)
  then show ?thesis using rnd_abs_pow2 [OF assms(1)] by simp
qed

lemma rnd_abs_rel:
  assumes "2 powi (- 1022) \<le> r"
  shows "rnd_abs r \<le> r * (1 + 2 powi (- 53))"
proof -
  have r0: "0 < r" using assms zero_less_power_int [of "2 :: real" "- 1022"] by linarith
  define e where "e = \<lfloor>log 2 r\<rfloor>"
  define q :: real where "q = 2 powi (e - 52)"
  have br: "2 powi e \<le> r" "r < 2 powi (e + 1)"
    using binade_exists [OF r0] by (simp_all add: e_def)
  have "(2 :: real) powi (- 1022) < 2 powi (e + 1)" using assms br(2) by linarith
  then have "- 1022 < e + 1" unfolding pow2_less_iff .
  then have er: "- 1022 \<le> e" by simp
  have q0: "0 < q" by (simp add: q_def)
  have "of_int (rhe (r / q)) - r / q \<le> 1 / 2"
    using rhe_error [of "r / q"] by linarith
  then have "of_int (rhe (r / q)) * q - r \<le> q / 2"
    using q0 by (simp add: field_simps)
  then have err: "rnd_abs r \<le> r + q / 2"
    using rnd_abs_binade [OF br er] by (simp add: q_def)
  have "q / 2 = 2 powi e * 2 powi (- 53)"
    using power_int_add [of "2 :: real" e "- 53"] pow2_split [of "e - 53" 1]
    by (simp add: q_def)
  also have "\<dots> \<le> r * 2 powi (- 53)"
    using br(1) by (intro mult_right_mono) simp_all
  finally show ?thesis using err by (simp add: algebra_simps)
qed

lemma rnd_abs_grid_form:
  assumes "2 powi (- 1022) \<le> r"
  obtains m e where "rnd_abs r = of_int m * 2 powi (e - 52)"
    and "2 ^ 52 \<le> m" and "m < 2 ^ 53" and "- 1022 \<le> e"
    and "2 powi e \<le> rnd_abs r" and "rnd_abs r < 2 powi (e + 1)"
proof -
  have r0: "0 < r" using assms zero_less_power_int [of "2 :: real" "- 1022"] by linarith
  define e where "e = \<lfloor>log 2 r\<rfloor>"
  define m where "m = rhe (r / 2 powi (e - 52))"
  have br: "2 powi e \<le> r" "r < 2 powi (e + 1)"
    using binade_exists [OF r0] by (simp_all add: e_def)
  have "(2 :: real) powi (- 1022) < 2 powi (e + 1)" using assms br(2) by linarith
  then have "- 1022 < e + 1" unfolding pow2_less_iff .
  then have er: "- 1022 \<le> e" by simp
  have val: "rnd_abs r = of_int m * 2 powi (e - 52)"
    using rnd_abs_binade [OF br er] by (simp add: m_def)
  have mb: "2 ^ 52 \<le> m" "m \<le> 2 ^ 53"
    using rhe_scaled_bounds [OF br] by (simp_all add: m_def)
  show ?thesis
  proof (cases "m = 2 ^ 53")
    case True
    have v: "rnd_abs r = 2 powi (e + 1)"
      unfolding val True using pow2_split [of "e - 52" 53] by (simp add: add.commute)
    have v': "rnd_abs r = of_int (2 ^ 52) * 2 powi (e + 1 - 52)"
      unfolding v using pow2_split_sub [of "e + 1" 52] by simp
    have "(2 :: real) powi (e + 1) < 2 powi (e + 1 + 1)" unfolding pow2_less_iff by simp
    then show ?thesis
      using that [of "2 ^ 52" "e + 1"] v v' er by simp
  next
    case False
    then have lt: "m < 2 ^ 53" using mb(2) by simp
    then have "m + 1 \<le> 2 ^ 53" by simp
    then have "(of_int (m + 1) :: real) \<le> of_int (2 ^ 53)" by (simp only: of_int_le_iff)
    then have m2: "(of_int m :: real) + 1 \<le> 2 ^ 53" by simp
    have "(of_int m :: real) * 2 powi (e - 52) < (of_int m + 1) * 2 powi (e - 52)"
      by (simp add: algebra_simps)
    also have "\<dots> \<le> 2 ^ 53 * 2 powi (e - 52)"
      using m2 by (intro mult_right_mono) simp_all
    also have "\<dots> = 2 powi (e + 1)"
      using pow2_split [of "e - 52" 53] by (simp add: add.commute)
    finally have up: "rnd_abs r < 2 powi (e + 1)" unfolding val .
    show ?thesis
      using that [of m e] val mb(1) lt er rnd_abs_bounds(1) [OF br er] up by simp
  qed
qed

lemma rnd_abs_plus_half:
  assumes "2 ^ 53 \<le> b"
  shows "rnd_abs (rnd_abs b + 1 / 2) = rnd_abs b"
proof -
  have b53: "2 powi 53 \<le> b" using assms by simp
  have "(2 :: real) powi (- 1022) \<le> 2 powi 53" unfolding pow2_le_iff by simp
  then have lo: "2 powi (- 1022) \<le> b" using b53 by linarith
  obtain m e where g: "rnd_abs b = of_int m * 2 powi (e - 52)"
    "2 ^ 52 \<le> m" "m < 2 ^ 53" "- 1022 \<le> e" "rnd_abs b < 2 powi (e + 1)"
    using rnd_abs_grid_form [OF lo] by metis
  have "2 powi 53 \<le> rnd_abs b" using b53 by (intro rnd_abs_ge_pow2) simp_all
  then have "(2 :: real) powi 53 < 2 powi (e + 1)" using g(5) by linarith
  then have "53 < e + 1" unfolding pow2_less_iff .
  then have "0 \<le> e - 53" by simp
  then have "(2 :: real) powi 0 \<le> 2 powi (e - 53)" unfolding pow2_le_iff .
  then have "(1 / 2 :: real) < 2 powi (e - 53)" by simp
  then show ?thesis
    unfolding g(1) using g(2,3,4) by (intro grid_near) simp_all
qed

lemma rnd_abs_one_eps:
  assumes "1 \<le> z" and "z \<le> 1 + 2 powi (- 53)"
  shows "rnd_abs z = 1"
proof -
  have "rnd_abs (of_int (2 ^ 52) * 2 powi (0 - 52) + (z - 1)) = of_int (2 ^ 52) * 2 powi (0 - 52)"
    using assms by (intro grid_near) simp_all
  then show ?thesis by simp
qed

lemma rnd_abs_nat:
  assumes "0 < n" and "n \<le> 2 ^ 53"
  shows "rnd_abs (real n) = real n"
proof -
  have r0: "0 < real n" using assms(1) by simp
  define e where "e = \<lfloor>log 2 (real n)\<rfloor>"
  have br: "2 powi e \<le> real n" "real n < 2 powi (e + 1)"
    using binade_exists [OF r0] by (simp_all add: e_def)
  have "1 \<le> real n" using assms(1) by simp
  then have "(2 :: real) powi 0 < 2 powi (e + 1)" using br(2) by simp
  then have "0 < e + 1" unfolding pow2_less_iff .
  then have e0: "0 \<le> e" by simp
  have "real n \<le> 2 powi 53" using assms(2) by (simp add: of_nat_le_iff [of n "2 ^ 53", symmetric] del: of_nat_le_iff)
  then have "(2 :: real) powi e \<le> 2 powi 53" using br(1) by linarith
  then have e53: "e \<le> 53" unfolding pow2_le_iff .
  show ?thesis
  proof (cases "e = 53")
    case True
    then have "real n = 2 powi 53" using br(1) \<open>real n \<le> 2 powi 53\<close> by simp
    then show ?thesis using rnd_abs_pow2 [of 53] by simp
  next
    case False
    then have e52: "e \<le> 52" using e53 by simp
    define k where "k = nat (52 - e)"
    have ke: "e - 52 = - int k" using e52 by (simp add: k_def)
    have q: "(2 :: real) powi (e - 52) = inverse (2 ^ k)"
      unfolding ke by (simp add: power_int_minus)
    have sc: "real n / 2 powi (e - 52) = of_int (int n * 2 ^ k)"
      unfolding q by (simp add: field_simps)
    have "rnd_abs (real n) = of_int (int n * 2 ^ k) * 2 powi (e - 52)"
      using rnd_abs_binade [OF br] e0 unfolding sc rhe_of_int by simp
    then show ?thesis unfolding q by simp
  qed
qed

lemma rnd_abs_subnormal:
  assumes "0 < r" and "r < 2 powi (- 1022)"
  shows "0 \<le> rnd_abs r" and "rnd_abs r \<le> 2 powi (- 1022)"
proof -
  define e where "e = \<lfloor>log 2 r\<rfloor>"
  have br: "2 powi e \<le> r" "r < 2 powi (e + 1)"
    using binade_exists [OF assms(1)] by (simp_all add: e_def)
  have "(2 :: real) powi e < 2 powi (- 1022)" using br(1) assms(2) by linarith
  then have "e < - 1022" unfolding pow2_less_iff .
  then have ex: "expo r = - 1022" by (simp add: expo_def e_def)
  define q :: real where "q = 2 powi (- 1022 - 52)"
  have q0: "0 < q" by (simp add: q_def)
  have val: "rnd_abs r = of_int (rhe (r / q)) * q" by (simp add: rnd_abs_def ex q_def)
  have top: "(2 :: real) powi (- 1022) = 2 ^ 52 * q"
    unfolding q_def using pow2_split_sub [of "- 1022" 52] by (simp only: of_nat_numeral)
  have "r / q \<le> 2 ^ 52" using assms(2) q0 unfolding top by (simp add: field_simps)
  then have "rhe (r / q) \<le> rhe (of_int (2 ^ 52))" by (intro rhe_mono) simp
  then have "rhe (r / q) \<le> 2 ^ 52" by (simp only: rhe_of_int)
  then have "(of_int (rhe (r / q)) :: real) \<le> of_int (2 ^ 52)" by (simp only: of_int_le_iff)
  then have "of_int (rhe (r / q)) * q \<le> 2 ^ 52 * q" using q0 by (intro mult_right_mono) simp_all
  then show "rnd_abs r \<le> 2 powi (- 1022)" unfolding val top .
  have "rhe (of_int 0) \<le> rhe (r / q)" using assms(1) q0 by (intro rhe_mono) simp
  then have "0 \<le> rhe (r / q)" by (simp only: rhe_of_int)
  then show "0 \<le> rnd_abs r" unfolding val using q0 by simp
qed

lemma rnd_abs_unit:
  assumes "0 < r" and "r \<le> 1"
  shows "0 \<le> rnd_abs r" and "rnd_abs r \<le> 1"
proof -
  have small: "(2 :: real) powi (- 1022) \<le> 2 powi 0" unfolding pow2_le_iff by simp
  have "0 \<le> rnd_abs r \<and> rnd_abs r \<le> 1"
  proof (cases "r < 2 powi (- 1022)")
    case True
    then show ?thesis using rnd_abs_subnormal [OF assms(1) True] small by simp
  next
    case False
    then have lo: "2 powi (- 1022) \<le> r" by simp
    have "r \<le> 2 powi 0" using assms(2) by simp
    then have "rnd_abs r \<le> 2 powi 0" using lo by (intro rnd_abs_le_pow2)
    moreover have "2 powi (- 1022) \<le> rnd_abs r" using lo by (intro rnd_abs_ge_pow2) simp_all
    moreover have "0 < (2 :: real) powi (- 1022)" by simp
    ultimately show ?thesis by simp
  qed
  then show "0 \<le> rnd_abs r" and "rnd_abs r \<le> 1" by simp_all
qed

lemma pack_value:
  assumes "0 < r" and "0 \<le> rnd_abs r" and "rnd_abs r < 2 ^ 1024"
  shows "pack False r = Num (rnd_abs r)"
  using assms by (simp add: pack_def Let_def)

lemma pack_unit:
  assumes "0 \<le> r" and "r \<le> 1"
  shows "\<exists>v. pack False r = Num v \<and> 0 \<le> v \<and> v \<le> 1"
proof (cases "r = 0")
  case True
  then show ?thesis by (simp add: pack_def)
next
  case False
  then have r0: "0 < r" using assms(1) by simp
  have "(1 :: real) < 2 ^ 1024" by simp
  then have "rnd_abs r < 2 ^ 1024" using rnd_abs_unit(2) [OF r0 assms(2)] by linarith
  then have "pack False r = Num (rnd_abs r)"
    using r0 rnd_abs_unit(1) [OF r0 assms(2)] by (intro pack_value)
  then show ?thesis using rnd_abs_unit [OF r0 assms(2)] by simp
qed

subsection \<open>The sample points\<close>

lemma pow2_tiny_le_one: "(2 :: real) powi (- 1022) \<le> 1"
proof -
  have "(2 :: real) powi (- 1022) \<le> 2 powi 0" unfolding pow2_le_iff by simp
  then show ?thesis by simp
qed

lemma two_64_lt_1024: "(2 :: real) powi 64 < 2 ^ 1024"
proof -
  have "(2 :: real) powi 64 < 2 powi 1024" unfolding pow2_less_iff by simp
  then show ?thesis by simp
qed

lemma rnd_nonneg: "0 \<le> r \<Longrightarrow> rnd r = pack False r"
  by (simp add: rnd_def)

lemma u64_real_bounds:
  assumes "w \<noteq> 0"
  shows "1 \<le> u64_real w" and "u64_real w \<le> 2 powi 64"
proof -
  have "unat w \<noteq> 0" using assms by (simp add: unat_eq_0)
  then have "1 \<le> unat w" by simp
  then have "real 1 \<le> real (unat w)" by (simp only: of_nat_le_iff)
  then show "1 \<le> u64_real w" by (simp add: u64_real_def)
  have "unat w < 2 ^ 64" using unsigned_less [of w] by simp
  then have "real (unat w) < real (2 ^ 64)" by (simp only: of_nat_less_iff)
  then show "u64_real w \<le> 2 powi 64" by (simp add: u64_real_def)
qed

lemma u64_real_nonneg: "0 \<le> u64_real w"
  unfolding u64_real_def by (rule of_nat_0_le_iff)

lemma u64_real_less:
  assumes "i < N"
  shows "u64_real i + 1 \<le> u64_real N"
proof -
  have "unat i < unat N" using assms by (simp add: word_less_nat_alt)
  then have "unat i + 1 \<le> unat N" by simp
  then have "real (unat i + 1) \<le> real (unat N)" by (simp only: of_nat_le_iff)
  then show ?thesis by (simp add: u64_real_def)
qed

lemma u64_real_exact:
  assumes "w \<noteq> 0" and "u64_real w \<le> 2 ^ 53"
  shows "rnd_abs (u64_real w) = u64_real w"
proof -
  have "unat w \<noteq> 0" using assms(1) by (simp add: unat_eq_0)
  then have pos: "0 < unat w" by simp
  have "real (unat w) \<le> real (2 ^ 53)" using assms(2) by (simp add: u64_real_def)
  then have "unat w \<le> 2 ^ 53" by (simp only: of_nat_le_iff)
  then have "rnd_abs (real (unat w)) = real (unat w)" using pos by (intro rnd_abs_nat)
  then show ?thesis by (simp only: u64_real_def)
qed

lemma conv_pos:
  assumes "w \<noteq> 0"
  shows "d_of_u64 w = Num (rnd_abs (u64_real w))"
    and "1 \<le> rnd_abs (u64_real w)" and "rnd_abs (u64_real w) \<le> 2 powi 64"
proof -
  let ?b = "u64_real w"
  have b: "1 \<le> ?b" "?b \<le> 2 powi 64" using u64_real_bounds [OF assms] by simp_all
  have lo: "2 powi (- 1022) \<le> ?b" using b(1) pow2_tiny_le_one by linarith
  have "2 powi 0 \<le> rnd_abs ?b" using b(1) by (intro rnd_abs_ge_pow2) simp_all
  then show ge: "1 \<le> rnd_abs ?b" by simp
  show le: "rnd_abs ?b \<le> 2 powi 64" using lo b(2) by (rule rnd_abs_le_pow2)
  have "pack False ?b = Num (rnd_abs ?b)"
    using b(1) ge le two_64_lt_1024 by (intro pack_value) linarith+
  then show "d_of_u64 w = Num (rnd_abs ?b)"
    using b(1) by (simp add: d_of_u64_def rnd_nonneg)
qed

lemma conv_zero: "d_of_u64 0 = Num 0"
  by (simp add: d_of_u64_def u64_real_def rnd_def pack_def)

text \<open>
  The double of an index below \<open>N\<close> is at most the double of \<open>N\<close>, and still so after
  one half is added to it.
\<close>

lemma conv_index:
  assumes "i < N"
  obtains A where "d_of_u64 i = Num A" and "0 \<le> A"
    and "A \<le> rnd_abs (u64_real N)" and "u64_real N \<le> 2 ^ 53 \<longrightarrow> A + 1 \<le> u64_real N"
proof (cases "i = 0")
  case True
  have N0: "N \<noteq> 0" using assms by (metis word_not_simps(1))
  have "(0 :: real) + 1 \<le> u64_real N" using u64_real_bounds(1) [OF N0] by simp
  then show ?thesis using that [of 0] conv_zero True conv_pos(2) [OF N0] by simp
next
  case False
  have N0: "N \<noteq> 0" using assms by (metis word_not_simps(1))
  have a1: "1 \<le> u64_real i" using u64_real_bounds(1) [OF False] .
  have alo: "2 powi (- 1022) \<le> u64_real i" using a1 pow2_tiny_le_one by linarith
  have ab: "u64_real i + 1 \<le> u64_real N" using assms by (rule u64_real_less)
  have mono: "rnd_abs (u64_real i) \<le> rnd_abs (u64_real N)"
    using alo ab by (intro rnd_abs_mono) simp_all
  have ex: "rnd_abs (u64_real i) + 1 \<le> u64_real N" if "u64_real N \<le> 2 ^ 53"
  proof -
    have "u64_real i \<le> 2 ^ 53" using ab that by linarith
    then have "rnd_abs (u64_real i) = u64_real i" using False by (intro u64_real_exact)
    then show ?thesis using ab by simp
  qed
  show ?thesis
    using that [of "rnd_abs (u64_real i)"] conv_pos(1) [OF False] a1 conv_pos(2) [OF False]
      mono ex by simp
qed

lemma index_plus_half:
  assumes "i < N"
  obtains Y where "dadd (d_of_u64 i) (Num (1 / 2)) = Num Y"
    and "1 / 2 \<le> Y" and "Y \<le> rnd_abs (u64_real N)"
proof -
  let ?M = "rnd_abs (u64_real N)"
  have N0: "N \<noteq> 0" using assms by (metis word_not_simps(1))
  have M: "1 \<le> ?M" "?M \<le> 2 powi 64" using conv_pos [OF N0] by simp_all
  have blo: "2 powi (- 1022) \<le> u64_real N"
    using u64_real_bounds(1) [OF N0] pow2_tiny_le_one by linarith
  obtain A where A: "d_of_u64 i = Num A" "0 \<le> A" "A \<le> ?M"
    "u64_real N \<le> 2 ^ 53 \<longrightarrow> A + 1 \<le> u64_real N"
    using conv_index [OF assms] by metis
  define Y where "Y = rnd_abs (A + 1 / 2)"
  have half: "(2 :: real) powi (- 1) = 1 / 2" by simp
  have lo: "2 powi (- 1022) \<le> A + 1 / 2"
  proof -
    have "(2 :: real) powi (- 1022) \<le> 2 powi (- 1)" unfolding pow2_le_iff by simp
    then show ?thesis using A(2) unfolding half by linarith
  qed
  have "2 powi (- 1) \<le> rnd_abs (A + 1 / 2)"
    using A(2) unfolding half [symmetric] by (intro rnd_abs_ge_pow2) simp_all
  then have Ylo: "1 / 2 \<le> Y" unfolding half Y_def .
  have Yhi: "Y \<le> ?M"
  proof (cases "u64_real N \<le> 2 ^ 53")
    case True
    then have "A + 1 / 2 \<le> u64_real N" using A(4) by linarith
    then show ?thesis unfolding Y_def using lo by (intro rnd_abs_mono)
  next
    case False
    then have big: "2 ^ 53 \<le> u64_real N" by simp
    have "A + 1 / 2 \<le> ?M + 1 / 2" using A(3) by simp
    then have "Y \<le> rnd_abs (?M + 1 / 2)" unfolding Y_def using lo by (intro rnd_abs_mono)
    then show ?thesis using rnd_abs_plus_half [OF big] by simp
  qed
  have "Y < 2 ^ 1024" using Yhi M(2) two_64_lt_1024 by linarith
  then have "pack False (A + 1 / 2) = Num Y"
    unfolding Y_def using A(2) Ylo [unfolded Y_def] by (intro pack_value) linarith+
  then have "dadd (d_of_u64 i) (Num (1 / 2)) = Num Y"
    using A(2) by (simp add: A(1) dadd_def is_inf_def rnd_nonneg)
  then show ?thesis using that Ylo Yhi by blast
qed

lemma step_value:
  assumes "N \<noteq> 0"
  obtains s where "ddiv (Num 1) (d_of_u64 N) = Num s" and "0 < s"
    and "rnd_abs (u64_real N) * s \<le> 1 + 2 powi (- 53)"
proof -
  define M where "M = rnd_abs (u64_real N)"
  have M: "d_of_u64 N = Num M" "1 \<le> M" "M \<le> 2 powi 64"
    using conv_pos [OF assms] by (simp_all add: M_def)
  have M0: "0 < M" using M(2) by linarith
  define s where "s = rnd_abs (1 / M)"
  have inv64: "(2 :: real) powi (- 64) = inverse (2 powi 64)"
    by (rule power_int_minus)
  have "inverse (2 powi 64) \<le> inverse M" using M(3) M0 by (rule le_imp_inverse_le)
  then have lo64: "2 powi (- 64) \<le> 1 / M"
    unfolding inv64 inverse_eq_divide .
  have "(2 :: real) powi (- 1022) \<le> 2 powi (- 64)" unfolding pow2_le_iff by simp
  then have lo: "2 powi (- 1022) \<le> 1 / M" using lo64 by linarith
  have "1 / M \<le> 2 powi 0" using M(2) M0 by simp
  then have "s \<le> 2 powi 0" unfolding s_def using lo by (intro rnd_abs_le_pow2)
  then have s1: "s \<le> 1" by simp
  have "2 powi (- 64) \<le> s" unfolding s_def using lo64 by (intro rnd_abs_ge_pow2) simp_all
  moreover have "0 < (2 :: real) powi (- 64)" by simp
  ultimately have s0: "0 < s" by linarith
  have "s \<le> (1 / M) * (1 + 2 powi (- 53))" unfolding s_def using lo by (rule rnd_abs_rel)
  then have "M * s \<le> M * ((1 / M) * (1 + 2 powi (- 53)))"
    using M0 by (intro mult_left_mono) simp_all
  then have rel: "M * s \<le> 1 + 2 powi (- 53)" using M0 by simp
  have "(1 :: real) < 2 ^ 1024" by simp
  then have "s < 2 ^ 1024" using s1 by linarith
  then have "pack False (1 / M) = Num s"
    unfolding s_def using M0 s0 [unfolded s_def] by (intro pack_value) simp_all
  then have "ddiv (Num 1) (d_of_u64 N) = Num s"
    using M0 by (simp add: M(1) ddiv_def is_inf_def is_zero_def)
  then show ?thesis using that s0 rel by (simp add: M_def)
qed

lemma sample_point:
  assumes "i < N"
  obtains X where
    "dmul (dadd (d_of_u64 i) (Num (1 / 2))) (ddiv (Num 1) (d_of_u64 N)) = Num X"
    and "0 \<le> X" and "X \<le> 1"
proof -
  have N0: "N \<noteq> 0" using assms by (metis word_not_simps(1))
  obtain Y where Y: "dadd (d_of_u64 i) (Num (1 / 2)) = Num Y" "1 / 2 \<le> Y"
    "Y \<le> rnd_abs (u64_real N)"
    using index_plus_half [OF assms] by metis
  obtain s where s: "ddiv (Num 1) (d_of_u64 N) = Num s" "0 < s"
    "rnd_abs (u64_real N) * s \<le> 1 + 2 powi (- 53)"
    using step_value [OF N0] by metis
  have Y0: "0 < Y" using Y(2) by linarith
  have p0: "0 < Y * s" using Y0 s(2) by simp
  have "Y * s \<le> rnd_abs (u64_real N) * s" using Y(3) s(2) by (intro mult_right_mono) simp_all
  then have up: "Y * s \<le> 1 + 2 powi (- 53)" using s(3) by linarith
  have mul: "dmul (Num Y) (Num s) = pack False (Y * s)"
    using Y0 s(2) by (simp add: dmul_def is_inf_def is_zero_def abs_of_pos)
  obtain X where X: "pack False (Y * s) = Num X" "0 \<le> X" "X \<le> 1"
  proof (cases "Y * s \<le> 1")
    case True
    then show ?thesis using pack_unit [of "Y * s"] p0 that by auto
  next
    case False
    then have "rnd_abs (Y * s) = 1" using up by (intro rnd_abs_one_eps) simp_all
    then have "pack False (Y * s) = Num 1" using p0 by (simp add: pack_value)
    then show ?thesis using that [of 1] by simp
  qed
  show ?thesis using that [of X] X mul by (simp add: Y(1) s(1))
qed

lemma f_unit:
  assumes "0 \<le> X" and "X \<le> 1"
  obtains P s t where "dmul (Num X) (Num X) = Num P" and "0 \<le> P" and "P \<le> 1"
    and "dsub (Num 1) (Num P) = Num s" and "0 \<le> s" and "s \<le> 1"
    and "dsqrt (Num s) = Num t" and "0 \<le> t" and "t \<le> 1"
proof -
  have sq: "0 \<le> X * X" "X * X \<le> 1"
    using assms by (simp_all add: mult_le_one)
  have "dmul (Num X) (Num X) = pack False (X * X)"
    by (simp add: dmul_def is_inf_def is_zero_def)
  then obtain P where P: "dmul (Num X) (Num X) = Num P" "0 \<le> P" "P \<le> 1"
    using pack_unit [OF sq] by auto
  have "dsub (Num 1) (Num P) = pack False (1 - P)"
    using P(3) by (simp add: dsub_def dadd_def is_inf_def rnd_nonneg)
  then obtain s where s: "dsub (Num 1) (Num P) = Num s" "0 \<le> s" "s \<le> 1"
    using pack_unit [of "1 - P"] P(2,3) by auto
  have rt: "0 \<le> sqrt s" "sqrt s \<le> 1" using s(2,3) by simp_all
  have "dsqrt (Num s) = pack False (sqrt s)"
    using s(2) by (simp add: rnd_nonneg)
  then obtain t where t: "dsqrt (Num s) = Num t" "0 \<le> t" "t \<le> 1"
    using pack_unit [OF rt] by auto
  show ?thesis using that P s t by blast
qed

lemma rnd_pow2:
  assumes "- 1022 \<le> k" and "k < 1024"
  shows "rnd (2 powi k) = Num (2 powi k)"
proof -
  have "(2 :: real) powi k < 2 powi 1024" using assms(2) unfolding pow2_less_iff .
  then have "(2 :: real) powi k < 2 ^ 1024" by simp
  then have "pack False (2 powi k) = Num (2 powi k)"
    using rnd_abs_pow2 [OF assms(1)] by (simp add: pack_value)
  then show ?thesis by (simp add: rnd_nonneg)
qed

lemma rnd_near_grid:
  assumes "2 ^ 52 \<le> m" and "m < 2 ^ 53" and "- 1022 \<le> e" and "e < 1023" and "0 \<le> d"
    and "d < 2 powi (e - 53) \<or> (even m \<and> d \<le> 2 powi (e - 53))"
  shows "rnd (of_int m * 2 powi (e - 52) + d) = Num (of_int m * 2 powi (e - 52))"
proof -
  let ?v = "of_int m * 2 powi (e - 52) :: real"
  have q0: "0 < (2 :: real) powi (e - 52)" by simp
  have m0: "(0 :: real) < of_int m"
  proof -
    have "(0 :: int) < 2 ^ 52" by simp
    then have "0 < m" using assms(1) by linarith
    then show ?thesis by simp
  qed
  have v0: "0 < ?v" using m0 q0 by (rule mult_pos_pos)
  have "m \<le> 2 ^ 53" using assms(2) by simp
  then have "(of_int m :: real) \<le> of_int (2 ^ 53)" by (simp only: of_int_le_iff)
  then have "?v \<le> 2 ^ 53 * 2 powi (e - 52)" using q0 by (intro mult_right_mono) simp_all
  also have "\<dots> = 2 powi (e + 1)" using pow2_split_sub [of "e + 1" 53] by simp
  also have "\<dots> < 2 powi 1024" using assms(4) unfolding pow2_less_iff by simp
  finally have top: "?v < 2 ^ 1024" by simp
  have val: "rnd_abs (?v + d) = ?v" using assms(1,2,3,5,6) by (rule grid_near)
  have a: "0 < ?v + d" using v0 assms(5) by linarith
  have b: "0 \<le> rnd_abs (?v + d)" using v0 val by linarith
  have c: "rnd_abs (?v + d) < 2 ^ 1024" using top val by linarith
  have "pack False (?v + d) = Num (rnd_abs (?v + d))" using a b c by (rule pack_value)
  then show ?thesis using a by (simp add: val rnd_nonneg)
qed

lemma conv_2_53_1: "d_of_u64 9007199254740993 = Num (2 powi 53)"
proof -
  have "u64_real 9007199254740993 = of_int (2 ^ 52) * 2 powi (53 - 52) + 1"
    by (simp add: u64_real_def)
  moreover have "rnd (of_int (2 ^ 52) * 2 powi (53 - 52) + 1)
      = Num (of_int (2 ^ 52) * 2 powi (53 - 52))"
    by (intro rnd_near_grid) simp_all
  ultimately have "d_of_u64 9007199254740993 = Num (of_int (2 ^ 52) * 2 powi (53 - 52))"
    by (simp only: d_of_u64_def)
  then show ?thesis by simp
qed

lemma conv_2_53: "d_of_u64 9007199254740992 = Num (2 powi 53)"
proof -
  have "u64_real 9007199254740992 = 2 powi 53" by (simp add: u64_real_def)
  then show ?thesis using rnd_pow2 [of 53] by (simp only: d_of_u64_def)
qed

lemma add_2_53_half: "dadd (Num (2 powi 53)) (Num (1 / 2)) = Num (2 powi 53)"
proof -
  have "rnd (of_int (2 ^ 52) * 2 powi (53 - 52) + 1 / 2)
      = Num (of_int (2 ^ 52) * 2 powi (53 - 52))"
    by (intro rnd_near_grid) simp_all
  then show ?thesis by (simp add: dadd_def is_inf_def)
qed

lemma div_2_53: "ddiv (Num 1) (Num (2 powi 53)) = Num (2 powi (- 53))"
proof -
  have "1 / (2 :: real) powi 53 = 2 powi (- 53)"
    unfolding power_int_minus [of "2 :: real" 53] inverse_eq_divide ..
  moreover have "rnd (2 powi (- 53)) = Num (2 powi (- 53))" by (intro rnd_pow2) simp_all
  moreover have "ddiv (Num 1) (Num (2 powi 53)) = rnd (1 / 2 powi 53)"
    by (simp add: ddiv_def is_inf_def is_zero_def rnd_nonneg)
  ultimately show ?thesis by (simp only:)
qed

lemma mul_2_53: "dmul (Num (2 powi 53)) (Num (2 powi (- 53))) = Num 1"
proof -
  have "(2 :: real) powi 53 * 2 powi (- 53) = 2 powi 0"
    using power_int_add [of "2 :: real" 53 "- 53"] by simp
  moreover have "rnd (2 powi 0) = Num (2 powi 0)" by (intro rnd_pow2) simp_all
  moreover have "dmul (Num (2 powi 53)) (Num (2 powi (- 53)))
      = rnd ((2 :: real) powi 53 * 2 powi (- 53))"
    by (simp add: dmul_def is_inf_def is_zero_def rnd_nonneg)
  ultimately show ?thesis by (simp only: power_int_0_right)
qed


text \<open>
  Claim C6 says that the sample point never lands on or above 1. In double precision
  it lands on 1 exactly: for \<open>N = 2\<^sup>5\<^sup>3 + 1\<close> the double of \<open>N\<close> is \<open>2\<^sup>5\<^sup>3\<close>, so the
  step is \<open>2\<^sup>-\<^sup>5\<^sup>3\<close>, and for the last index \<open>i = 2\<^sup>5\<^sup>3\<close> the sum \<open>i + 0.5\<close> rounds to
  \<open>2\<^sup>5\<^sup>3\<close>.
\<close>

theorem sample_point_one_counterexample:
  "(9007199254740992 :: u64) < 9007199254740993
   \<and> midpoint ieee_fpu (step_of ieee_fpu 9007199254740993) 9007199254740992 = Num 1"
proof -
  have "(9007199254740992 :: u64) < 9007199254740993" by simp
  then show ?thesis
    by (simp only: midpoint_def step_of_def ieee_sel conv_2_53_1 conv_2_53 add_2_53_half
          div_2_53 mul_2_53 simp_thms)
qed

text \<open>
  Claim C6 as amended. For every \<open>N \<ge> 1\<close> and every index \<open>i < N\<close> the sample point is a
  finite double between 0 and 1, 1 included: it never exceeds 1. So the argument
  \<open>1 - x * x\<close> of the square root is a finite double that is not negative, and \<open>f x\<close>
  is a finite double between 0 and 1, not a NaN.
\<close>

theorem sample_point_in_domain:
  assumes "N \<noteq> 0" and "i < N"
  shows "\<exists>X s t. midpoint ieee_fpu (step_of ieee_fpu N) i = Num X \<and> 0 \<le> X \<and> X \<le> 1
    \<and> fp_sub ieee_fpu (fp_one ieee_fpu) (fp_mul ieee_fpu (Num X) (Num X)) = Num s \<and> 0 \<le> s
    \<and> f ieee_fpu (Num X) = Num t \<and> 0 \<le> t \<and> t \<le> 1"
proof -
  obtain X where X:
    "dmul (dadd (d_of_u64 i) (Num (1 / 2))) (ddiv (Num 1) (d_of_u64 N)) = Num X"
    "0 \<le> X" "X \<le> 1"
    using sample_point [OF assms(2)] by metis
  obtain P s t where u: "dmul (Num X) (Num X) = Num P"
    "dsub (Num 1) (Num P) = Num s" "0 \<le> s" "dsqrt (Num s) = Num t" "0 \<le> t" "t \<le> 1"
    using f_unit [OF X(2,3)] by metis
  show ?thesis
    using X u by (simp add: midpoint_def step_of_def f_def ieee_sel)
qed


theorem sample_point_in_domain_witness:
  "(4 :: u64) \<noteq> 0 \<and> (3 :: u64) < 4
   \<and> (\<exists>X s t. midpoint ieee_fpu (step_of ieee_fpu 4) 3 = Num X \<and> 0 \<le> X \<and> X \<le> 1
        \<and> fp_sub ieee_fpu (fp_one ieee_fpu) (fp_mul ieee_fpu (Num X) (Num X)) = Num s \<and> 0 \<le> s
        \<and> f ieee_fpu (Num X) = Num t \<and> 0 \<le> t \<and> t \<le> 1)"
proof -
  have a: "(4 :: u64) \<noteq> 0" by simp
  have b: "(3 :: u64) < 4" by simp
  show ?thesis using a b sample_point_in_domain [OF a b] by blast
qed

subsection \<open>The run on one subinterval\<close>

lemma rhe_near:
  assumes "of_int k - 1 / 2 < x" and "x < of_int k + 1 / 2"
  shows "rhe x = k"
proof (cases "of_int k \<le> x")
  case True
  then show ?thesis using assms(2) by (rule rhe_down)
next
  case False
  then have fl: "\<lfloor>x\<rfloor> = k - 1" using assms(1) by (intro floor_unique) simp_all
  have "1 / 2 < x - of_int (k - 1)" using assms(1) by simp
  then show ?thesis using fl by (simp add: rhe_def Let_def)
qed

lemma sqrt_three_quarters:
  "rnd_abs (sqrt (3 / 4)) = 7800463371553962 * 2 powi (- 53)"
proof -
  let ?x = "sqrt (3 / 4) :: real"
  have lo: "2 powi (- 1) \<le> ?x"
  proof -
    have "(1 / 2 :: real)\<^sup>2 \<le> 3 / 4" by (simp add: power2_eq_square)
    then have "1 / 2 \<le> ?x" by (rule real_le_rsqrt)
    then show ?thesis by simp
  qed
  have hi: "?x < 2 powi (- 1 + 1)"
  proof -
    have "?x < sqrt 1" by (subst real_sqrt_less_iff) simp
    then show ?thesis by simp
  qed
  have q: "(2 :: real) powi (- 1 - 52) = 1 / 2 ^ 53"
    unfolding power_int_minus inverse_eq_divide by simp
  have sc: "?x / 2 powi (- 1 - 52) = ?x * 2 ^ 53" unfolding q by simp
  have a: "of_int 7800463371553962 - 1 / 2 < ?x * 2 ^ 53"
  proof -
    have "((7800463371553962 - 1 / 2) / 2 ^ 53 :: real)\<^sup>2 < 3 / 4"
      by (simp add: power2_eq_square)
    then have "(7800463371553962 - 1 / 2) / 2 ^ 53 < ?x" by (rule real_less_rsqrt)
    then show ?thesis by (simp add: field_simps)
  qed
  have b: "?x * 2 ^ 53 < of_int 7800463371553962 + 1 / 2"
  proof -
    have "(3 / 4 :: real) < ((7800463371553962 + 1 / 2) / 2 ^ 53)\<^sup>2"
      by (simp add: power2_eq_square)
    then have "?x < (7800463371553962 + 1 / 2) / 2 ^ 53" by (intro real_less_lsqrt) simp_all
    then show ?thesis by (simp add: field_simps)
  qed
  have "rhe (?x * 2 ^ 53) = 7800463371553962" using a b by (rule rhe_near)
  then have "rnd_abs ?x = of_int 7800463371553962 * 2 powi (- 1 - 52)"
    using rnd_abs_binade [OF lo hi] sc by simp
  then show ?thesis by simp
qed

lemma rnd_grid:
  assumes "2 ^ 52 \<le> m" and "m < 2 ^ 53" and "- 1022 \<le> e" and "e < 1023"
  shows "rnd (of_int m * 2 powi (e - 52)) = Num (of_int m * 2 powi (e - 52))"
  using rnd_near_grid [OF assms, of 0] by simp

lemma run_main_1_1:
  "run_main fp 1 1 =
     Inr (reduce fp 1
       [\<lparr>start_td = 0, end_td = 1,
         sum_td = fp_add fp (fp_zero fp) (f fp (midpoint fp (step_of fp 1) 0)),
         step_td = step_of fp 1\<rparr>])"
proof -
  have T: "0 <s (1 :: i32)" by (simp add: word_sless_alt)
  have "tasks fp 1 1 = [\<lparr>start_td = 0, end_td = 1, sum_td = fp_zero fp, step_td = step_of fp 1\<rparr>]"
    by (simp add: tasks_def task_def bound_def step_of_def)
  moreover have "threadFunction fp
        \<lparr>start_td = 0, end_td = 1, sum_td = fp_zero fp, step_td = step_of fp 1\<rparr>
      = \<lparr>start_td = 0, end_td = 1,
         sum_td = fp_add fp (fp_zero fp) (f fp (midpoint fp (step_of fp 1) 0)),
         step_td = step_of fp 1\<rparr>"
    by (simp add: threadFunction_def threadLoop.simps [of _ _ 0] threadLoop.simps [of _ _ 1]
          midpoint_def Let_def)
  ultimately show ?thesis
    using run_main_closed [OF T, of fp 1] by simp
qed

lemma conv_one: "d_of_u64 1 = Num 1"
proof -
  have "u64_real 1 = 2 powi 0" by (simp add: u64_real_def)
  then show ?thesis using rnd_pow2 [of 0] by (simp add: d_of_u64_def)
qed

lemma div_one_one: "ddiv (Num 1) (Num 1) = Num 1"
  using rnd_pow2 [of 0] by (simp add: ddiv_def is_inf_def is_zero_def rnd_nonneg)

lemma rnd_half: "rnd (1 / 2) = Num (1 / 2)"
  using rnd_pow2 [of "- 1"] by simp

lemma add_zero_half: "dadd (Num 0) (Num (1 / 2)) = Num (1 / 2)"
  using rnd_half by (simp add: dadd_def is_inf_def)

lemma mul_half_one: "dmul (Num (1 / 2)) (Num 1) = Num (1 / 2)"
  using rnd_half by (simp add: dmul_def is_inf_def is_zero_def rnd_nonneg)

lemma mul_half_half: "dmul (Num (1 / 2)) (Num (1 / 2)) = Num (1 / 4)"
  using rnd_pow2 [of "- 2"] by (simp add: dmul_def is_inf_def is_zero_def rnd_nonneg)

lemma sub_one_quarter: "dsub (Num 1) (Num (1 / 4)) = Num (3 / 4)"
proof -
  have "(3 / 4 :: real) = of_int (3 * 2 ^ 51) * 2 powi (- 1 - 52)"
    unfolding power_int_minus inverse_eq_divide by simp
  moreover have "rnd (of_int (3 * 2 ^ 51) * 2 powi (- 1 - 52))
      = Num (of_int (3 * 2 ^ 51) * 2 powi (- 1 - 52))"
    by (intro rnd_grid) simp_all
  ultimately have "rnd (3 / 4) = Num (3 / 4)" by (simp only:)
  then show ?thesis by (simp add: dsub_def dadd_def is_inf_def)
qed

definition root34 :: real where
  "root34 = 7800463371553962 * 2 powi (- 53)"

lemma root34_grid: "root34 = of_int 7800463371553962 * 2 powi (- 1 - 52)"
  by (simp add: root34_def)

lemma root34_pos: "0 < root34"
  by (simp add: root34_def)

lemma rnd_root34: "rnd root34 = Num root34"
  unfolding root34_grid by (intro rnd_grid) simp_all

lemma sqrt_three_quarters_double: "dsqrt (Num (3 / 4)) = Num root34"
proof -
  have v: "rnd_abs (sqrt (3 / 4)) = root34"
    using sqrt_three_quarters by (simp add: root34_def)
  have "(0 :: real) < sqrt (3 / 4)" by simp
  moreover have "root34 < 2 ^ 1024"
  proof -
    have "root34 \<le> 2 ^ 53 * 2 powi (- 53)" unfolding root34_def by (intro mult_right_mono) simp_all
    also have "\<dots> = 1" unfolding power_int_minus inverse_eq_divide by simp
    finally show ?thesis by simp
  qed
  ultimately have "pack False (sqrt (3 / 4)) = Num root34"
    using root34_pos pack_value [of "sqrt (3 / 4)"] unfolding v by simp
  then show ?thesis by (simp add: rnd_nonneg)
qed

lemma add_zero_root: "dadd (Num 0) (Num root34) = Num root34"
  using rnd_root34 by (simp add: dadd_def is_inf_def)

lemma mul_one_root: "dmul (Num 1) (Num root34) = Num root34"
  using rnd_root34 root34_pos by (simp add: dmul_def is_inf_def is_zero_def rnd_nonneg)

lemma mul_four_root: "dmul (Num 4) (Num root34) = Num (4 * root34)"
proof -
  have "4 * root34 = of_int 7800463371553962 * 2 powi (1 - 52)"
    unfolding root34_def power_int_minus inverse_eq_divide by simp
  moreover have "rnd (of_int 7800463371553962 * 2 powi (1 - 52))
      = Num (of_int 7800463371553962 * 2 powi (1 - 52))"
    by (intro rnd_grid) simp_all
  ultimately have "rnd (4 * root34) = Num (4 * root34)" by (simp only:)
  then show ?thesis
    using root34_pos by (simp add: dmul_def is_inf_def is_zero_def rnd_nonneg)
qed

lemma root34_error: "\<bar>root34 - sqrt (3 / 4)\<bar> \<le> 2 powi (- 54)"
proof -
  let ?x = "sqrt (3 / 4) :: real"
  have lo: "2 powi (- 1) \<le> ?x"
  proof -
    have "(1 / 2 :: real)\<^sup>2 \<le> 3 / 4" by (simp add: power2_eq_square)
    then have "1 / 2 \<le> ?x" by (rule real_le_rsqrt)
    then show ?thesis by simp
  qed
  have hi: "?x < 2 powi (- 1 + 1)"
  proof -
    have "?x < sqrt 1" by (subst real_sqrt_less_iff) simp
    then show ?thesis by simp
  qed
  define q :: real where "q = 2 powi (- 1 - 52)"
  have q0: "0 < q" by (simp add: q_def)
  have "rnd_abs ?x = of_int (rhe (?x / q)) * q"
    using rnd_abs_binade [OF lo hi] by (simp add: q_def)
  then have r: "root34 = of_int (rhe (?x / q)) * q"
    using sqrt_three_quarters by (simp add: root34_def)
  have "\<bar>of_int (rhe (?x / q)) - ?x / q\<bar> * q \<le> (1 / 2) * q"
    using rhe_error [of "?x / q"] q0 by (intro mult_right_mono) simp_all
  moreover have "\<bar>of_int (rhe (?x / q)) - ?x / q\<bar> * q = \<bar>root34 - ?x\<bar>"
  proof -
    have "\<bar>of_int (rhe (?x / q)) - ?x / q\<bar> * q = \<bar>(of_int (rhe (?x / q)) - ?x / q) * q\<bar>"
      using q0 by (simp add: abs_mult)
    also have "(of_int (rhe (?x / q)) - ?x / q) * q = root34 - ?x"
      unfolding r using q0 by (simp add: field_simps)
    finally show ?thesis .
  qed
  moreover have "(1 / 2) * q = 2 powi (- 54)"
    using pow2_split_sub [of "- 53" 1] by (simp add: q_def)
  ultimately show ?thesis by simp
qed

lemma rnd_sqrt34: "rnd (sqrt (3 / 4)) = Num root34"
  using sqrt_three_quarters_double by simp

lemma step_of_one: "step_of ieee_fpu 1 = Num 1"
  by (simp add: step_of_def ieee_sel conv_one div_one_one)

lemma midpoint_first: "midpoint ieee_fpu (Num 1) 0 = Num (1 / 2)"
  by (simp add: midpoint_def ieee_sel conv_zero add_zero_half mul_half_one)

lemma f_half: "f ieee_fpu (Num (1 / 2)) = Num root34"
  by (simp add: f_def ieee_sel mul_half_half sub_one_quarter rnd_sqrt34)

lemma four_root34_decimal: "3.4641 < 4 * root34" "4 * root34 < 3.4642"
  by (simp_all add: root34_def)

lemma four_root34_error: "\<bar>4 * root34 - 4 * sqrt (3 / 4)\<bar> \<le> 2 powi (- 52)"
proof -
  have "4 * root34 - 4 * sqrt (3 / 4) = 4 * (root34 - sqrt (3 / 4))" by (rule right_diff_distrib [symmetric])
  then have "\<bar>4 * root34 - 4 * sqrt (3 / 4)\<bar> = \<bar>4 :: real\<bar> * \<bar>root34 - sqrt (3 / 4)\<bar>"
    by (simp only: abs_mult)
  also have "\<dots> \<le> 4 * 2 powi (- 54)" using root34_error by simp
  also have "\<dots> = 2 powi (- 52)" using pow2_split_sub [of "- 52" 2] by simp
  finally show ?thesis .
qed

lemma pi_approx_one: "pi_approx (reduce ieee_fpu 1
       [\<lparr>start_td = 0, end_td = 1,
         sum_td = fp_add ieee_fpu (fp_zero ieee_fpu)
           (f ieee_fpu (midpoint ieee_fpu (step_of ieee_fpu 1) 0)),
         step_td = step_of ieee_fpu 1\<rparr>]) = Num (4 * root34)"
  unfolding step_of_one midpoint_first f_half
  by (simp add: reduce_def Let_def step_of_def ieee_sel conv_one div_one_one
        add_zero_root mul_one_root mul_four_root)


text \<open>
  Claim C9. On \<open>N = 1\<close>, \<open>T = 1\<close> the program samples the one midpoint \<open>x = 0.5\<close>, where
  \<open>f\<close> is the double nearest to \<open>sqrt 0.75\<close>, and prints \<open>4.0 * (1.0 * f 0.5)\<close>: four
  times that double, which is within \<open>2 powi (-52)\<close> of \<open>4 * sqrt 0.75\<close> and lies
  between 3.4641 and 3.4642.
\<close>

theorem boundary_run:
  "\<exists>r. run_main ieee_fpu 1 1 = Inr r
     \<and> midpoint ieee_fpu (step_of ieee_fpu 1) 0 = Num (1 / 2)
     \<and> f ieee_fpu (Num (1 / 2)) = Num root34 \<and> rnd (sqrt (3 / 4)) = Num root34
     \<and> pi_approx r = fp_mul ieee_fpu (Num 4) (fp_mul ieee_fpu (Num 1) (f ieee_fpu (Num (1 / 2))))
     \<and> pi_approx r = Num (4 * root34)
     \<and> \<bar>4 * root34 - 4 * sqrt (3 / 4)\<bar> \<le> 2 powi (- 52)
     \<and> 3.4641 < 4 * root34 \<and> 4 * root34 < 3.4642"
proof -
  have a: "midpoint ieee_fpu (step_of ieee_fpu 1) 0 = Num (1 / 2)"
    unfolding step_of_one by (rule midpoint_first)
  have b: "fp_mul ieee_fpu (Num 4) (fp_mul ieee_fpu (Num 1) (f ieee_fpu (Num (1 / 2))))
      = Num (4 * root34)"
    unfolding f_half ieee_sel mul_one_root by (rule mul_four_root)
  show ?thesis
    unfolding run_main_1_1 b
    using pi_approx_one a f_half rnd_sqrt34 four_root34_error four_root34_decimal by blast
qed

subsection \<open>The run on no subinterval\<close>

text \<open>
  With \<open>N = 0\<close> the width \<open>1.0 / 0.0\<close> is \<open>+\<infinity>\<close> and the total of the empty ranges is
  \<open>0.0\<close>, so the value printed is a NaN.
\<close>

lemma zero_subintervals_nan:
  assumes "0 <s T"
  shows "\<exists>r. run_main ieee_fpu 0 T = Inr r \<and> exit_code r = 0 \<and> pi_approx r = NaN"
proof -
  have "dadd (Num 0) (Num 0) = Num 0"
    by (simp add: dadd_def is_inf_def rnd_def pack_def)
  then have z: "foldl dadd (Num 0) (replicate n (Num 0)) = Num 0" for n
    by (induction n) simp_all
  have st: "ddiv (Num 1) (d_of_u64 0) = PosInf"
    by (simp add: conv_zero ddiv_def is_inf_def is_zero_def)
  have "dmul (Num 4) (dmul PosInf (Num 0)) = NaN"
    by (simp add: dmul_def is_inf_def is_zero_def)
  then show ?thesis
    unfolding run_main_closed [OF assms] tasks_zero [OF assms]
    by (simp add: reduce_def Let_def ieee_sel st z map_replicate_const)
qed

section \<open>More workers than subintervals\<close>

subsection \<open>Adding zero to a double that is not negative\<close>

lemma rnd_abs_idem_subnormal:
  assumes "0 < r" and "r < 2 powi (- 1022)" and "0 < rnd_abs r"
  shows "rnd_abs (rnd_abs r) = rnd_abs r"
proof -
  define e where "e = \<lfloor>log 2 r\<rfloor>"
  have br: "2 powi e \<le> r" "r < 2 powi (e + 1)"
    using binade_exists [OF assms(1)] by (simp_all add: e_def)
  have "(2 :: real) powi e < 2 powi (- 1022)" using br(1) assms(2) by linarith
  then have "e < - 1022" unfolding pow2_less_iff .
  then have ex: "expo r = - 1022" by (simp add: expo_def e_def)
  define q :: real where "q = 2 powi (- 1022 - 52)"
  define k where "k = rhe (r / q)"
  have q0: "0 < q" by (simp add: q_def)
  have val: "rnd_abs r = of_int k * q" by (simp add: rnd_abs_def ex q_def k_def)
  show ?thesis
  proof (cases "rnd_abs r < 2 powi (- 1022)")
    case True
    define e' where "e' = \<lfloor>log 2 (rnd_abs r)\<rfloor>"
    have bv: "2 powi e' \<le> rnd_abs r" "rnd_abs r < 2 powi (e' + 1)"
      using binade_exists [OF assms(3)] by (simp_all add: e'_def)
    have "(2 :: real) powi e' < 2 powi (- 1022)" using bv(1) True by linarith
    then have "e' < - 1022" unfolding pow2_less_iff .
    then have ex': "expo (rnd_abs r) = - 1022" by (simp add: expo_def e'_def)
    have "rnd_abs r / q = of_int k" unfolding val using q0 by simp
    then have "rhe (rnd_abs r / q) = k" by simp
    then have "rnd_abs (rnd_abs r) = of_int k * q"
      by (simp add: rnd_abs_def [of "rnd_abs r"] ex' q_def)
    then show ?thesis using val by simp
  next
    case False
    then have v: "rnd_abs r = 2 powi (- 1022)"
      using rnd_abs_subnormal(2) [OF assms(1,2)] by linarith
    show ?thesis unfolding v by (rule rnd_abs_pow2) simp
  qed
qed

lemma rnd_abs_idem:
  assumes "0 < r" and "0 < rnd_abs r"
  shows "rnd_abs (rnd_abs r) = rnd_abs r"
proof (cases "r < 2 powi (- 1022)")
  case True
  then show ?thesis using assms by (intro rnd_abs_idem_subnormal)
next
  case False
  then have lo: "2 powi (- 1022) \<le> r" by simp
  obtain m e where g: "rnd_abs r = of_int m * 2 powi (e - 52)"
    "2 ^ 52 \<le> m" "m < 2 ^ 53" "- 1022 \<le> e"
    using rnd_abs_grid_form [OF lo] by metis
  show ?thesis unfolding g(1) using g(2,3,4) by (rule rnd_abs_grid)
qed

text \<open>A double that is not negative: a finite value that rounding leaves as it is, or \<open>+\<infinity>\<close>.\<close>

definition nonneg_double :: "double \<Rightarrow> bool" where
  "nonneg_double d \<longleftrightarrow> d = PosInf \<or> (\<exists>v. d = Num v \<and> 0 \<le> v \<and> pack False v = Num v)"

lemma pack_nonneg_double:
  assumes "0 \<le> r"
  shows "nonneg_double (pack False r)"
proof (cases "r = 0")
  case True
  then show ?thesis by (simp add: nonneg_double_def pack_def)
next
  case False
  then have r0: "0 < r" using assms by simp
  show ?thesis
  proof (cases "2 ^ 1024 \<le> rnd_abs r")
    case True
    then show ?thesis using False by (simp add: nonneg_double_def pack_def)
  next
    case big: False
    show ?thesis
    proof (cases "rnd_abs r = 0")
      case True
      then show ?thesis using False big by (simp add: nonneg_double_def pack_def)
    next
      case nz: False
      have nn: "0 \<le> rnd_abs r"
      proof (cases "r < 2 powi (- 1022)")
        case True
        then show ?thesis using rnd_abs_subnormal(1) [OF r0] by simp
      next
        case False
        then have "2 powi (- 1022) \<le> rnd_abs r" by (intro rnd_abs_ge_pow2) simp_all
        moreover have "0 < (2 :: real) powi (- 1022)" by simp
        ultimately show ?thesis by linarith
      qed
      then have pos: "0 < rnd_abs r" using nz by simp
      have p: "pack False r = Num (rnd_abs r)"
        using False big nz by (simp add: pack_def)
      have "rnd_abs (rnd_abs r) = rnd_abs r" using r0 pos by (rule rnd_abs_idem)
      then have "pack False (rnd_abs r) = Num (rnd_abs r)"
        using big nz by (simp add: pack_def)
      then show ?thesis using p nn by (simp add: nonneg_double_def)
    qed
  qed
qed

lemma nonneg_double_zero: "nonneg_double (Num 0)"
  by (simp add: nonneg_double_def pack_def)

lemma nonneg_double_add:
  assumes "nonneg_double a" and "nonneg_double b"
  shows "nonneg_double (dadd a b)"
proof (cases "a = PosInf \<or> b = PosInf")
  case True
  then show ?thesis
    using assms by (auto simp: nonneg_double_def dadd_def is_inf_def)
next
  case False
  then obtain v w where v: "a = Num v" "0 \<le> v" and w: "b = Num w" "0 \<le> w"
    using assms by (auto simp: nonneg_double_def)
  have "dadd a b = pack False (v + w)"
    using v w by (simp add: dadd_def is_inf_def rnd_nonneg)
  then show ?thesis using pack_nonneg_double [of "v + w"] v(2) w(2) by simp
qed

lemma nonneg_double_neutral:
  assumes "nonneg_double y"
  shows "dadd (Num 0) y = y" and "dadd y (Num 0) = y"
  using assms by (auto simp: nonneg_double_def dadd_def is_inf_def rnd_nonneg)

subsection \<open>The totals\<close>

lemma bound_idle: "bound 0 m j = min j m"
  by (simp add: bound_def)

lemma indices_single:
  assumes "Suc j < 2 ^ 64"
  shows "indices (of_nat j) (of_nat (Suc j)) = [of_nat j]"
proof -
  have a: "unat (of_nat j :: u64) = j" using assms by (simp add: unat_of_nat)
  have b: "unat (of_nat (Suc j) :: u64) = Suc j" using assms by (simp only: unat_of_nat) simp
  show ?thesis unfolding indices_def a b by simp
qed

lemma threadFunction_single:
  assumes "Suc j < 2 ^ 64"
  shows "sum_td (threadFunction fp
      \<lparr>start_td = of_nat j, end_td = of_nat (Suc j), sum_td = z, step_td = st\<rparr>)
    = fp_add fp (fp_zero fp) (sample fp st (of_nat j))"
  by (simp add: threadFunction_def threadLoop_foldl indices_single [OF assms] del: of_nat_Suc)

lemma threadFunction_idle:
  "sum_td (threadFunction fp \<lparr>start_td = a, end_td = a, sum_td = z, step_td = st\<rparr>)
    = fp_zero fp"
  by (simp add: threadFunction_empty)

text \<open>The sums the slots hold when there are more workers than subintervals.\<close>

lemma idle_sums:
  assumes "int (unat N) < sint T"
  shows "map sum_td (map (threadFunction fp) (tasks fp N T)) =
     map (\<lambda>j. fp_add fp (fp_zero fp) (sample fp (step_of fp N) (of_nat j))) [0..<unat N]
     @ replicate (nat (sint T) - unat N) (fp_zero fp)"
proof -
  define n where "n = nat (sint T)"
  define m where "m = unat N"
  have mn: "m < n" unfolding n_def m_def using assms by arith
  have m64: "m < 2 ^ 64" using unsigned_less [of N] by (simp add: m_def)
  have dv: "m div n = 0" "m mod n = m" using mn by simp_all
  have sums: "sum_td (threadFunction fp (task fp (step_of fp N) 0 m j)) =
      (if j < m then fp_add fp (fp_zero fp) (sample fp (step_of fp N) (of_nat j))
       else fp_zero fp)" for j
  proof (cases "j < m")
    case True
    then have "Suc j < 2 ^ 64" using m64 by simp
    then show ?thesis
      using True by (simp add: task_def bound_idle min_def threadFunction_single del: of_nat_Suc)
  next
    case False
    then show ?thesis
      by (simp add: task_def bound_idle min_def threadFunction_idle)
  qed
  have split: "[0..<n] = [0..<m] @ [m..<n]"
    using mn by (metis le_add_diff_inverse less_imp_le_nat upt_add_eq_append zero_le)
  have "map sum_td (map (threadFunction fp) (tasks fp N T))
      = map (\<lambda>j. sum_td (threadFunction fp (task fp (step_of fp N) 0 m j))) [0..<n]"
    by (simp add: tasks_def n_def m_def dv [unfolded n_def m_def] step_of_def comp_def)
  also have "\<dots> = map (\<lambda>j. fp_add fp (fp_zero fp) (sample fp (step_of fp N) (of_nat j))) [0..<m]
      @ map (\<lambda>j. fp_zero fp) [m..<n]"
    unfolding split map_append by (simp add: sums)
  also have "map (\<lambda>j. fp_zero fp) [m..<n] = replicate (n - m) (fp_zero fp)"
    by (simp add: map_replicate_const)
  finally show ?thesis by (simp add: n_def m_def)
qed

lemma single_sum:
  "map sum_td (map (threadFunction fp) (tasks fp N 1)) =
     [foldl (\<lambda>s j. fp_add fp s (sample fp (step_of fp N) (of_nat j))) (fp_zero fp) [0..<unat N]]"
proof -
  have "tasks fp N 1 =
      [\<lparr>start_td = 0, end_td = N, sum_td = fp_zero fp, step_td = step_of fp N\<rparr>]"
    by (simp add: tasks_def task_def bound_def step_of_def)
  then show ?thesis
    by (simp add: threadFunction_def threadLoop_foldl indices_def foldl_map)
qed

lemma idle_total:
  fixes P :: "'d \<Rightarrow> bool"
  assumes more: "int (unat N) < sint T"
    and zero: "P (fp_zero fp)"
    and closed: "\<And>a b. P a \<Longrightarrow> P b \<Longrightarrow> P (fp_add fp a b)"
    and neutral: "\<And>y. P y \<Longrightarrow> fp_add fp (fp_zero fp) y = y \<and> fp_add fp y (fp_zero fp) = y"
    and samples: "\<And>i. i < N \<Longrightarrow> P (sample fp (step_of fp N) i)"
  shows "foldl (fp_add fp) (fp_zero fp) (map sum_td (map (threadFunction fp) (tasks fp N T)))
    = foldl (fp_add fp) (fp_zero fp) (map sum_td (map (threadFunction fp) (tasks fp N 1)))"
proof -
  define g where "g j = sample fp (step_of fp N) (of_nat j)" for j
  define F where "F k = foldl (\<lambda>s j. fp_add fp s (g j)) (fp_zero fp) [0..<k]" for k
  have Pg: "P (g j)" if "j < unat N" for j
  proof -
    have "unat N < 2 ^ 64" using unsigned_less [of N] by simp
    then have "unat (of_nat j :: u64) = j" using that by (simp add: unat_of_nat)
    then have "(of_nat j :: u64) < N" using that by (simp add: word_less_nat_alt)
    then show ?thesis unfolding g_def by (rule samples)
  qed
  have PF: "P (F k)" if "k \<le> unat N" for k
    using that
  proof (induction k)
    case 0
    show ?case using zero by (simp add: F_def)
  next
    case (Suc k)
    then have "P (F k)" "P (g k)" using Pg by simp_all
    then show ?case using closed by (simp add: F_def)
  qed
  have busy: "foldl (fp_add fp) (fp_zero fp)
      (map (\<lambda>j. fp_add fp (fp_zero fp) (g j)) [0..<k]) = F k" if "k \<le> unat N" for k
    using that
  proof (induction k)
    case 0
    show ?case by (simp add: F_def)
  next
    case (Suc k)
    then have "fp_add fp (fp_zero fp) (g k) = g k" using neutral [OF Pg [of k]] by simp
    then show ?case using Suc by (simp add: F_def)
  qed
  have idle: "foldl (fp_add fp) y (replicate d (fp_zero fp)) = y" if "P y" for y d
    using that neutral by (induction d) simp_all
  have "foldl (fp_add fp) (fp_zero fp) (map sum_td (map (threadFunction fp) (tasks fp N T)))
      = foldl (fp_add fp) (F (unat N)) (replicate (nat (sint T) - unat N) (fp_zero fp))"
    unfolding idle_sums [OF more] foldl_append using busy [of "unat N"] by (simp add: g_def)
  also have "\<dots> = F (unat N)" using PF [of "unat N"] by (intro idle) simp
  also have "\<dots> = fp_add fp (fp_zero fp) (F (unat N))"
    using neutral [OF PF [of "unat N"]] by simp
  also have "\<dots> = foldl (fp_add fp) (fp_zero fp)
      (map sum_td (map (threadFunction fp) (tasks fp N 1)))"
    unfolding single_sum by (simp add: F_def g_def)
  finally show ?thesis .
qed

lemma sample_nonneg_double:
  assumes "i < N"
  shows "nonneg_double (sample ieee_fpu (step_of ieee_fpu N) i)"
proof -
  obtain X where X:
    "dmul (dadd (d_of_u64 i) (Num (1 / 2))) (ddiv (Num 1) (d_of_u64 N)) = Num X"
    "0 \<le> X" "X \<le> 1"
    using sample_point [OF assms] by metis
  obtain P s where u: "dmul (Num X) (Num X) = Num P" "dsub (Num 1) (Num P) = Num s" "0 \<le> s"
    using f_unit [OF X(2,3)] by metis
  have "sample ieee_fpu (step_of ieee_fpu N) i = dsqrt (Num s)"
    using X(1) u(1,2) by (simp add: sample_def step_of_def f_def ieee_sel)
  also have "\<dots> = pack False (sqrt s)" using u(3) by (simp add: rnd_nonneg)
  finally show ?thesis using pack_nonneg_double [of "sqrt s"] u(3) by simp
qed

lemma idle_total_ieee:
  assumes "int (unat N) < sint T"
  shows "foldl dadd (Num 0) (map sum_td (map (threadFunction ieee_fpu) (tasks ieee_fpu N T)))
    = foldl dadd (Num 0) (map sum_td (map (threadFunction ieee_fpu) (tasks ieee_fpu N 1)))"
proof -
  have "foldl (fp_add ieee_fpu) (fp_zero ieee_fpu)
        (map sum_td (map (threadFunction ieee_fpu) (tasks ieee_fpu N T)))
      = foldl (fp_add ieee_fpu) (fp_zero ieee_fpu)
        (map sum_td (map (threadFunction ieee_fpu) (tasks ieee_fpu N 1)))"
  proof (rule idle_total [where P = nonneg_double, OF assms])
    show "nonneg_double (fp_zero ieee_fpu)" by (simp add: ieee_sel nonneg_double_zero)
    show "nonneg_double (fp_add ieee_fpu a b)" if "nonneg_double a" "nonneg_double b" for a b
      using that by (simp add: ieee_sel nonneg_double_add)
    show "fp_add ieee_fpu (fp_zero ieee_fpu) y = y \<and> fp_add ieee_fpu y (fp_zero ieee_fpu) = y"
      if "nonneg_double y" for y
      using nonneg_double_neutral [OF that] by (simp add: ieee_sel)
    show "nonneg_double (sample ieee_fpu (step_of ieee_fpu N) i)" if "i < N" for i
      using that by (rule sample_nonneg_double)
  qed
  then show ?thesis by (simp only: ieee_sel)
qed


text \<open>
  Claim C7. When \<open>T > N \<ge> 1\<close>, every worker from index \<open>N\<close> on gets an empty range and
  stores \<^verbatim>\<open>0.0\<close>, and the program computes the same \<^verbatim>\<open>totalSum\<close> and prints the same
  \<^verbatim>\<open>pi_approx\<close> as with one worker. In double precision the two are the same double:
  each worker has at most one term, so the terms are added in the same order and
  grouping as by the single worker, and the additions of \<^verbatim>\<open>0.0\<close> change nothing, the
  terms being finite and not negative. For \<open>N = 1\<close>, \<open>T = 4\<close> the ranges are \<open>[0,1)\<close>,
  \<open>[1,1)\<close>, \<open>[1,1)\<close> and \<open>[1,1)\<close>.
\<close>

theorem more_workers_than_subintervals:
  assumes "N \<noteq> 0" and "int (unat N) < sint T"
  shows "\<exists>r r1. run_main ieee_fpu N T = Inr r \<and> run_main ieee_fpu N 1 = Inr r1
    \<and> (\<forall>j. unat N \<le> j \<and> j < nat (sint T) \<longrightarrow>
          start_td (threadData r ! j) = end_td (threadData r ! j)
        \<and> sum_td (threadData r ! j) = Num 0)
    \<and> totalSum r = totalSum r1
    \<and> pi_approx r = pi_approx r1
    \<and> (N = 1 \<and> T = 4 \<longrightarrow>
          map (\<lambda>d. (start_td d, end_td d)) (threadData r) = [(0, 1), (1, 1), (1, 1), (1, 1)])"
proof -
  define n where "n = nat (sint T)"
  define m where "m = unat N"
  define td where "td = map (threadFunction ieee_fpu) (tasks ieee_fpu N T)"
  define td1 where "td1 = map (threadFunction ieee_fpu) (tasks ieee_fpu N 1)"
  have mn: "m < n" unfolding n_def m_def using assms(2) by arith
  have "0 \<le> int (unat N)" by (rule of_nat_0_le_iff)
  then have "0 < sint T" using assms(2) by (rule le_less_trans)
  then have Tpos: "0 <s T" by (simp add: word_sless_alt)
  have one: "0 <s (1 :: i32)" by (simp add: word_sless_alt)
  have run: "run_main ieee_fpu N T = Inr (reduce ieee_fpu N td)"
    unfolding td_def using Tpos by (rule run_main_closed)
  have run1: "run_main ieee_fpu N 1 = Inr (reduce ieee_fpu N td1)"
    unfolding td1_def using one by (rule run_main_closed)
  have dv: "m div n = 0" "m mod n = m" using mn by simp_all
  have idle: "start_td (td ! j) = end_td (td ! j) \<and> sum_td (td ! j) = Num 0"
    if "m \<le> j \<and> j < n" for j
  proof -
    have jn: "j < nat (sint T)" using that by (simp add: n_def)
    have "unat (start_td (td ! j)) = m"
      using slot_start [OF Tpos jn, of ieee_fpu N] that
      by (simp add: td_def dv [unfolded n_def m_def] bound_idle m_def)
    moreover have "unat (end_td (td ! j)) = m"
      using slot_end [OF Tpos jn, of ieee_fpu N] that
      by (simp add: td_def dv [unfolded n_def m_def] bound_idle m_def)
    ultimately have eq: "start_td (td ! j) = end_td (td ! j)" by (simp add: word_unat_eq_iff)
    have "td ! j = threadFunction ieee_fpu (tasks ieee_fpu N T ! j)"
      using jn by (simp add: td_def tasks_length)
    moreover have "start_td (tasks ieee_fpu N T ! j) = end_td (tasks ieee_fpu N T ! j)"
      using eq jn by (simp add: td_def tasks_length threadFunction_frame)
    ultimately have "sum_td (td ! j) = fp_zero ieee_fpu"
      by (simp add: threadFunction_empty)
    then show ?thesis using eq by (simp add: ieee_sel)
  qed
  have tot: "totalSum (reduce ieee_fpu N td) = totalSum (reduce ieee_fpu N td1)"
    using idle_total_ieee [OF assms(2)] by (simp add: reduce_def Let_def td_def td1_def ieee_sel)
  then have pi: "pi_approx (reduce ieee_fpu N td) = pi_approx (reduce ieee_fpu N td1)"
    by (simp add: reduce_def Let_def)
  have ex: "map (\<lambda>d. (start_td d, end_td d)) td = [(0, 1), (1, 1), (1, 1), (1, 1)]"
    if "N = 1 \<and> T = 4"
  proof -
    have "[0..<nat (sint (4 :: i32))] = [0, 1, 2, 3]" by (simp add: upt_rec)
    then show ?thesis
      using that
      by (simp add: td_def tasks_def task_def threadFunction_frame bound_def comp_def)
  qed
  have td_r: "threadData (reduce ieee_fpu N td) = td" by (simp add: reduce_def Let_def)
  show ?thesis
    unfolding n_def [symmetric] m_def [symmetric]
  proof (rule exI [of _ "reduce ieee_fpu N td"], rule exI [of _ "reduce ieee_fpu N td1"],
      unfold td_r, intro conjI allI impI)
    show "run_main ieee_fpu N T = Inr (reduce ieee_fpu N td)" by (rule run)
    show "run_main ieee_fpu N 1 = Inr (reduce ieee_fpu N td1)" by (rule run1)
    show "start_td (td ! j) = end_td (td ! j)" if "m \<le> j \<and> j < n" for j
      using idle [OF that] by simp
    show "sum_td (td ! j) = Num 0" if "m \<le> j \<and> j < n" for j
      using idle [OF that] by simp
    show "totalSum (reduce ieee_fpu N td) = totalSum (reduce ieee_fpu N td1)" by (rule tot)
    show "pi_approx (reduce ieee_fpu N td) = pi_approx (reduce ieee_fpu N td1)" by (rule pi)
    show "map (\<lambda>d. (start_td d, end_td d)) td = [(0, 1), (1, 1), (1, 1), (1, 1)]"
      if "N = 1 \<and> T = 4"
      using that by (rule ex)
  qed
qed

theorem more_workers_than_subintervals_witness:
  "(1 :: u64) \<noteq> 0 \<and> int (unat (1 :: u64)) < sint (4 :: i32)
   \<and> (\<exists>r r1. run_main ieee_fpu 1 4 = Inr r \<and> run_main ieee_fpu 1 1 = Inr r1
        \<and> sum_td (threadData r ! 3) = Num 0
        \<and> pi_approx r = pi_approx r1
        \<and> map (\<lambda>d. (start_td d, end_td d)) (threadData r) = [(0, 1), (1, 1), (1, 1), (1, 1)])"
proof -
  have a: "(1 :: u64) \<noteq> 0" by simp
  have b: "int (unat (1 :: u64)) < sint (4 :: i32)" by simp
  have c: "unat (1 :: u64) \<le> 3 \<and> 3 < nat (sint (4 :: i32))" by simp
  from more_workers_than_subintervals [OF a b]
  obtain r r1 where r: "run_main ieee_fpu 1 4 = Inr r \<and> run_main ieee_fpu 1 1 = Inr r1
    \<and> (\<forall>j. unat (1 :: u64) \<le> j \<and> j < nat (sint (4 :: i32)) \<longrightarrow>
          start_td (threadData r ! j) = end_td (threadData r ! j)
        \<and> sum_td (threadData r ! j) = Num 0)
    \<and> totalSum r = totalSum r1
    \<and> pi_approx r = pi_approx r1
    \<and> ((1 :: u64) = 1 \<and> (4 :: i32) = 4 \<longrightarrow>
          map (\<lambda>d. (start_td d, end_td d)) (threadData r) = [(0, 1), (1, 1), (1, 1), (1, 1)])"
    by (elim exE)
  have r1: "run_main ieee_fpu 1 4 = Inr r" and r2: "run_main ieee_fpu 1 1 = Inr r1"
    and r3: "\<forall>j. unat (1 :: u64) \<le> j \<and> j < nat (sint (4 :: i32)) \<longrightarrow>
          start_td (threadData r ! j) = end_td (threadData r ! j)
        \<and> sum_td (threadData r ! j) = Num 0"
    and r4: "pi_approx r = pi_approx r1"
    and r5: "map (\<lambda>d. (start_td d, end_td d)) (threadData r) = [(0, 1), (1, 1), (1, 1), (1, 1)]"
    using r by simp_all
  have r6: "sum_td (threadData r ! 3) = Num 0" using r3 [rule_format, OF c] by simp
  show ?thesis
    by (intro conjI exI [of _ r] exI [of _ r1]) (fact a b r1 r2 r4 r5 r6)+
qed

end
